theory Spec2Isabelle
  imports Complex_Main "HOL-Library.Log_Nat" "HOL-Library.Word"
begin

unbundle bit_operations_syntax

section \<open>IEEE-754 binary64 values and correctly rounded arithmetic\<close>

text \<open>
  Python's \<open>float\<close> is an IEEE-754 binary64 number.  A finite float is the rational number
  it denotes; the two infinities and NaN are separate values.  The sign of a zero is not
  kept: the engine never divides by a float and never prints one, so \<open>-0.0\<close> and \<open>0.0\<close>
  behave alike in every operation below.

  Every arithmetic operation returns the exact result rounded to the nearest binary64 value,
  ties to the value with an even significand: a value of binade exponent \<open>e\<close> is rounded to
  a multiple of \<open>2 ^ (e - 52)\<close>, the subnormal range (exponents below \<open>-1022\<close>) to a multiple
  of \<open>2 ^ (-1074)\<close>, and a rounded magnitude of \<open>2 ^ 1024\<close> or more overflows to an infinity.
\<close>

datatype double = Finite rat | PInf | NInf | NaN

datatype error = OverflowError | ValueError | StructError | StopIteration

definition round_half_even :: "rat \<Rightarrow> int" where
  "round_half_even q = (let f = \<lfloor>q\<rfloor>; d = q - of_int f in
     if d < 1 / 2 then f else if 1 / 2 < d then f + 1 else if even f then f else f + 1)"

definition expo :: "rat \<Rightarrow> int" where
  \<comment> \<open>the binade exponent \<open>\<lfloor>log\<^sub>2 \<bar>r\<bar>\<rfloor>\<close> of a nonzero rational, computed from bit lengths\<close>
  "expo r = (let (a, b) = quotient_of \<bar>r\<bar>; e = bitlen a - bitlen b in
     if 2 powi e \<le> \<bar>r\<bar> then e else e - 1)"

definition round_to :: "rat \<Rightarrow> int \<Rightarrow> rat" where
  "round_to r k = of_int (round_half_even (r / 2 powi k)) * 2 powi k"

definition round_double :: "rat \<Rightarrow> double" where
  "round_double r = (if r = 0 then Finite 0 else
     let v = round_to r (max (expo r) (- 1022) - 52) in
     if 2 ^ 1024 \<le> v then PInf else if v \<le> - (2 ^ 1024) then NInf else Finite v)"

definition float_lit :: "rat \<Rightarrow> double" where
  \<comment> \<open>a decimal literal of the source, such as \<open>3.99\<close>: the nearest binary64 value\<close>
  "float_lit q = round_double q"

definition from_int :: "int \<Rightarrow> double" where
  \<comment> \<open>an \<open>int\<close> operand of a mixed \<open>float\<close>/\<open>int\<close> operation (the literals 1, 2, 127, 256)\<close>
  "from_int n = round_double (of_int n)"

definition int_truediv :: "int \<Rightarrow> int \<Rightarrow> double" where
  \<comment> \<open>\<open>a / b\<close> on two \<open>int\<close>s: the correctly rounded quotient.  The source divides only by
      the literals \<open>256\<close> and \<open>0xFFFFFFFF\<close>, so ZeroDivisionError cannot arise.\<close>
  "int_truediv a b = round_double (of_int a / of_int b)"

fun is_neg :: "double \<Rightarrow> bool" where
  "is_neg (Finite a) = (a < 0)"
| "is_neg NInf = True"
| "is_neg _ = False"

fun dneg :: "double \<Rightarrow> double" where
  "dneg (Finite a) = Finite (- a)"
| "dneg PInf = NInf"
| "dneg NInf = PInf"
| "dneg NaN = NaN"

fun dadd :: "double \<Rightarrow> double \<Rightarrow> double" where
  "dadd (Finite a) (Finite b) = round_double (a + b)"
| "dadd NaN _ = NaN"
| "dadd _ NaN = NaN"
| "dadd PInf NInf = NaN"
| "dadd NInf PInf = NaN"
| "dadd PInf _ = PInf"
| "dadd _ PInf = PInf"
| "dadd NInf _ = NInf"
| "dadd _ NInf = NInf"

definition dsub :: "double \<Rightarrow> double \<Rightarrow> double" where
  "dsub x y = dadd x (dneg y)"

fun dmul :: "double \<Rightarrow> double \<Rightarrow> double" where
  "dmul (Finite a) (Finite b) = round_double (a * b)"
| "dmul NaN _ = NaN"
| "dmul _ NaN = NaN"
| "dmul x y = (if x = Finite 0 \<or> y = Finite 0 then NaN
               else if is_neg x = is_neg y then PInf else NInf)"

fun ddiv :: "double \<Rightarrow> double \<Rightarrow> double" where
  \<comment> \<open>float division; the only divisor in the source is the literal \<open>2\<close>, so the
      ZeroDivisionError of a zero divisor cannot arise\<close>
  "ddiv (Finite a) (Finite b) = round_double (a / b)"
| "ddiv NaN _ = NaN"
| "ddiv _ NaN = NaN"
| "ddiv (Finite a) _ = Finite 0"
| "ddiv x (Finite b) = (if is_neg x = (b < 0) then PInf else NInf)"
| "ddiv _ _ = NaN"

fun dless :: "double \<Rightarrow> double \<Rightarrow> bool" where
  "dless (Finite a) (Finite b) = (a < b)"
| "dless NaN _ = False"
| "dless _ NaN = False"
| "dless NInf NInf = False"
| "dless NInf _ = True"
| "dless PInf _ = False"
| "dless _ PInf = True"
| "dless _ NInf = False"

fun py_int :: "double \<Rightarrow> error + int" where
  \<comment> \<open>\<open>int(x)\<close>: truncation towards zero; OverflowError on an infinity, ValueError on NaN\<close>
  "py_int (Finite a) = Inr (if 0 \<le> a then \<lfloor>a\<rfloor> else \<lceil>a\<rceil>)"
| "py_int NaN = Inl ValueError"
| "py_int _ = Inl OverflowError"

definition py_min :: "double \<Rightarrow> double \<Rightarrow> double" where
  \<comment> \<open>\<open>min(a, b)\<close> keeps its first argument unless the second is smaller\<close>
  "py_min a b = (if dless b a then b else a)"

definition py_max :: "double \<Rightarrow> double \<Rightarrow> double" where
  "py_max a b = (if dless a b then b else a)"

section \<open>Bytes, strings and the struct module\<close>

type_synonym byte = "8 word"

type_synonym pystr = "nat list"  \<comment> \<open>a Python \<open>str\<close>: its code points, \<open>ord\<close> of each character\<close>

definition str :: "string \<Rightarrow> pystr" where
  "str s = map of_char s"

definition ebind :: "error + 'a \<Rightarrow> ('a \<Rightarrow> error + 'b) \<Rightarrow> error + 'b" where
  \<comment> \<open>sequencing: an exception raised by the first computation propagates\<close>
  "ebind m f = (case m of Inl e \<Rightarrow> Inl e | Inr x \<Rightarrow> f x)"

definition to_byte :: "int \<Rightarrow> error + byte" where
  \<comment> \<open>storing an \<open>int\<close> into a \<open>bytearray\<close>: ValueError outside \<open>range(256)\<close>\<close>
  "to_byte v = (if 0 \<le> v \<and> v < 256 then Inr (word_of_int v) else Inl ValueError)"

definition hexchar :: "nat \<Rightarrow> char" where
  "hexchar n = ''0123456789abcdef'' ! (n mod 16)"

fun hex_digits :: "nat \<Rightarrow> string" where
  "hex_digits n = (if n < 16 then [hexchar n] else hex_digits (n div 16) @ [hexchar n])"

definition format_02x :: "int \<Rightarrow> string" where
  \<comment> \<open>the format specification \<open>02x\<close>: lowercase hexadecimal, zero-padded to width 2,
      the sign of a negative number counting towards the width\<close>
  "format_02x v = (if v < 0 then CHR ''-'' # hex_digits (nat (- v))
     else let ds = hex_digits (nat v) in replicate (2 - length ds) (CHR ''0'') @ ds)"

definition bytes_hex :: "byte list \<Rightarrow> string" where
  \<comment> \<open>\<open>bytearray.hex()\<close>: two lowercase hexadecimal digits per byte\<close>
  "bytes_hex bs = concat (map (\<lambda>b. [hexchar (unat b div 16), hexchar (unat b)]) bs)"

definition struct_pack_I :: "nat \<Rightarrow> error + byte list" where
  \<comment> \<open>\<open>struct.pack(">I", n)\<close>: four bytes, big-endian; struct.error outside 32 bits\<close>
  "struct_pack_I n = (if n < 2 ^ 32
     then Inr [of_nat (n div 2 ^ 24), of_nat (n div 2 ^ 16), of_nat (n div 2 ^ 8), of_nat n]
     else Inl StructError)"

fun struct_unpack_I :: "byte list \<Rightarrow> error + nat" where
  \<comment> \<open>\<open>struct.unpack(">I", buf)[0]\<close>: struct.error unless the buffer has exactly 4 bytes\<close>
  "struct_unpack_I [a, b, c, d] = Inr (unat a * 2 ^ 24 + unat b * 2 ^ 16 + unat c * 2 ^ 8 + unat d)"
| "struct_unpack_I _ = Inl StructError"

section \<open>The engine (quantum\_engine.py)\<close>

subsection \<open>Chaotic maps\<close>

definition logistic_map :: "double \<Rightarrow> double" where
  \<comment> \<open>\<open>r * x * (1 - x)\<close> with the default \<open>r = 3.99\<close>, which every call uses\<close>
  "logistic_map x = dmul (dmul (float_lit (399 / 100)) x) (dsub (from_int 1) x)"

definition tent_map :: "double \<Rightarrow> double" where
  \<comment> \<open>\<open>mu * x if x < 0.5 else mu * (1 - x)\<close> with the default \<open>mu = 1.99\<close>\<close>
  "tent_map x = (if dless x (float_lit (1 / 2)) then dmul (float_lit (199 / 100)) x
                 else dmul (float_lit (199 / 100)) (dsub (from_int 1) x))"

subsection \<open>Password to seed\<close>

definition acc_step :: "int \<Rightarrow> nat \<Rightarrow> int" where
  \<comment> \<open>one round of the loop over the password; the second argument is \<open>ord(ch)\<close>\<close>
  "acc_step acc ch = (let acc = (push_bit 5 acc - acc + int ch) AND 0xFFFFFFFF
                      in acc XOR drop_bit 16 acc)"

definition generate_entropy_seed :: "pystr \<Rightarrow> double" where
  "generate_entropy_seed password =
     (let acc = foldl acc_step 0 password;
          seed = int_truediv \<bar>acc\<bar> 0xFFFFFFFF
      in py_max (float_lit (1 / 10000)) (py_min (float_lit (9999 / 10000)) seed))"

subsection \<open>Entropy stream\<close>

text \<open>
  The generator is modelled by the list of what its successive \<open>next\<close> calls produce: a
  value, or the exception raised by \<open>int\<close>, after which the generator is finished.  Float
  arithmetic has no effect besides its result, so running the warm-up when the generator is
  created rather than at its first \<open>next\<close> cannot be observed.
\<close>

abbreviation scaled :: "double \<Rightarrow> double \<Rightarrow> double" where
  \<comment> \<open>\<open>((x + y) / 2) * 256\<close>\<close>
  "scaled x y \<equiv> dmul (ddiv (dadd x y) (from_int 2)) (from_int 256)"

fun warm_up :: "nat \<Rightarrow> double \<Rightarrow> double \<Rightarrow> double \<times> double" where
  "warm_up 0 x y = (x, y)"
| "warm_up (Suc n) x y = warm_up n (logistic_map x) (tent_map y)"

fun emit :: "nat \<Rightarrow> double \<Rightarrow> double \<Rightarrow> (error + int) list" where
  "emit 0 x y = []"
| "emit (Suc n) x y =
     (case py_int (scaled (logistic_map x) (tent_map y)) of
        Inl e \<Rightarrow> [Inl e]
      | Inr v \<Rightarrow> Inr (v AND 0xFF) # emit n (logistic_map x) (tent_map y))"

definition entropy_stream :: "double \<Rightarrow> int \<Rightarrow> (error + int) list" where
  "entropy_stream seed len =
     (case warm_up 100 seed (tent_map seed) of (x, y) \<Rightarrow> emit (nat len) x y)"

fun next_n :: "nat \<Rightarrow> (error + int) list \<Rightarrow> error + int list" where
  \<comment> \<open>\<open>n\<close> successive calls of \<open>next\<close> on a generator\<close>
  "next_n 0 s = Inr []"
| "next_n (Suc n) [] = Inl StopIteration"
| "next_n (Suc n) (Inl e # s) = Inl e"
| "next_n (Suc n) (Inr v # s) = ebind (next_n n s) (\<lambda>vs. Inr (v # vs))"

subsection \<open>Fingerprint\<close>

definition generate_entropy_fingerprint :: "pystr \<Rightarrow> error + string" where
  "generate_entropy_fingerprint password =
     (let seed = generate_entropy_seed password;
          stream = entropy_stream seed 32
      in ebind (next_n 32 stream) (\<lambda>vs. Inr (concat (map format_02x vs))))"

subsection \<open>Hash\<close>

fun store_all :: "int list \<Rightarrow> error + byte list" where
  \<comment> \<open>\<open>state[i] = v\<close> for each value in turn\<close>
  "store_all [] = Inr []"
| "store_all (v # vs) = ebind (to_byte v) (\<lambda>b. ebind (store_all vs) (\<lambda>bs. Inr (b # bs)))"

fun hash_loop :: "nat \<Rightarrow> byte list \<Rightarrow> byte list \<Rightarrow> error + byte list" where
  \<comment> \<open>the loop over \<open>enumerate(data)\<close>, from index \<open>i\<close> on, threading the state\<close>
  "hash_loop i [] state = Inr state"
| "hash_loop i (b # data) state =
     (let p = i mod 32;
          s = state ! p XOR b
      in ebind (py_int (dmul (logistic_map (int_truediv (uint s) 256)) (from_int 127)))
           (\<lambda>t. ebind (to_byte ((uint s + t) AND 0xFF))
              (\<lambda>s'. hash_loop (Suc i) data (state[p := s']))))"

definition quantum_hash :: "byte list \<Rightarrow> pystr \<Rightarrow> error + string" where
  "quantum_hash data password =
     (let seed = generate_entropy_seed password;
          stream = entropy_stream seed 32
      in ebind (next_n 32 stream) (\<lambda>vs.
         ebind (store_all vs) (\<lambda>state.
         ebind (hash_loop 0 data state) (\<lambda>state. Inr (bytes_hex state)))))"

subsection \<open>Encrypt and decrypt\<close>

fun xor_zip :: "byte list \<Rightarrow> (error + int) list \<Rightarrow> error + byte list" where
  \<comment> \<open>\<open>for b, k in zip(data, stream): out.append(b ^ k)\<close>: \<open>zip\<close> draws from the data
      first and stops as soon as either side is exhausted\<close>
  "xor_zip [] s = Inr []"
| "xor_zip (b # bs) [] = Inr []"
| "xor_zip (b # bs) (Inl e # s) = Inl e"
| "xor_zip (b # bs) (Inr k # s) =
     ebind (to_byte (uint b XOR k)) (\<lambda>c. ebind (xor_zip bs s) (\<lambda>cs. Inr (c # cs)))"

definition quantum_encrypt :: "byte list \<Rightarrow> pystr \<Rightarrow> error + (byte list \<times> string \<times> string)" where
  "quantum_encrypt data password =
     (let seed = generate_entropy_seed password
      in ebind (generate_entropy_fingerprint password) (\<lambda>fingerprint.
         ebind (struct_pack_I (length data)) (\<lambda>prefix.
         ebind (xor_zip data (entropy_stream seed (int (length data)))) (\<lambda>body.
         let encrypted_bytes = prefix @ body
         in ebind (quantum_hash encrypted_bytes password) (\<lambda>hash_val.
            Inr (encrypted_bytes, fingerprint, hash_val))))))"

definition quantum_decrypt ::
  "byte list \<Rightarrow> pystr \<Rightarrow> string \<Rightarrow> string \<Rightarrow> error + byte list option" where
  \<comment> \<open>\<open>Inr None\<close> is the source's \<open>return None\<close>, \<open>Inl e\<close> an exception that escapes;
      the two expected strings are only compared with the computed ones\<close>
  "quantum_decrypt encrypted password expected_fingerprint expected_hash =
     ebind (generate_entropy_fingerprint password) (\<lambda>fingerprint.
       if fingerprint \<noteq> expected_fingerprint then Inr None
       else ebind (quantum_hash encrypted password) (\<lambda>hash_val.
         if hash_val \<noteq> expected_hash then Inr None
         else ebind (struct_unpack_I (take 4 encrypted)) (\<lambda>original_len.
           let seed = generate_entropy_seed password
           in ebind (xor_zip (drop 4 encrypted) (entropy_stream seed (int original_len)))
                (\<lambda>decrypted.
                  if length decrypted \<noteq> original_len then Inr None
                  else Inr (Some decrypted)))))"

section \<open>The service's input checks (main.py)\<close>

text \<open>
  Of the two endpoints only the validation around the engine calls is modelled.  Storage is
  an input: \<open>decrypt_file\<close> receives the metadata document found for the file (if any) as the
  pair of its stored fingerprint and hash, and the bytes downloaded for it.
\<close>

datatype http_error = HTTPException nat string | Unhandled error

definition encrypt_file :: "byte list \<Rightarrow> pystr \<Rightarrow> http_error + (byte list \<times> string \<times> string)" where
  "encrypt_file data password =
     (if password = [] \<or> length password < 8
        then Inl (HTTPException 400 ''Password must be at least 8 characters'')
      else if data = [] then Inl (HTTPException 400 ''Empty file'')
      else case quantum_encrypt data password of
             Inl e \<Rightarrow> Inl (Unhandled e)
           | Inr stored \<Rightarrow> Inr stored)"

definition decrypt_file ::
  "(string \<times> string) option \<Rightarrow> byte list \<Rightarrow> pystr \<Rightarrow> http_error + byte list" where
  "decrypt_file meta encrypted_data password =
     (if password = [] \<or> length password < 8 then Inl (HTTPException 400 ''Invalid password'')
      else case meta of
        None \<Rightarrow> Inl (HTTPException 404 ''File not found'')
      | Some (fingerprint, hash_val) \<Rightarrow>
          if encrypted_data = [] \<or> length encrypted_data < 8
            then Inl (HTTPException 400 ''Encrypted data corrupted'')
          else (case quantum_decrypt encrypted_data password fingerprint hash_val of
                  Inl e \<Rightarrow> Inl (Unhandled e)
                | Inr None \<Rightarrow>
                    Inl (HTTPException 400 ''Decryption failed: wrong password or corrupted data'')
                | Inr (Some decrypted) \<Rightarrow> Inr decrypted))"

section \<open>The specification's formulations\<close>

text \<open>
  Two definitions written after the specification's words rather than after the code, to be
  compared with the code's functions: the keystream as the specification describes it
  (trajectories iterated from the seed, 100 discarded steps, then one byte
  \<open>floor(((x' + y') / 2) * 256) & 0xFF\<close> per step), and the seed computed with an unsigned
  32-bit accumulator and a clamp.
\<close>

fun dfloor :: "double \<Rightarrow> int" where
  \<comment> \<open>the floor of a finite value; an infinity or NaN has none, and 0 stands in for it\<close>
  "dfloor (Finite a) = \<lfloor>a\<rfloor>"
| "dfloor _ = 0"

definition keystream_spec :: "double \<Rightarrow> nat \<Rightarrow> int list" where
  "keystream_spec seed n =
     map (\<lambda>i. let x' = (logistic_map ^^ (100 + Suc i)) seed;
                  y' = (tent_map ^^ (100 + Suc i)) (tent_map seed)
              in dfloor (scaled x' y') AND 0xFF)
         [0..<n]"

definition acc32_step :: "32 word \<Rightarrow> nat \<Rightarrow> 32 word" where
  "acc32_step acc c = (let acc = acc * 31 + of_nat c in acc XOR drop_bit 16 acc)"

definition clamp :: "double \<Rightarrow> double \<Rightarrow> double \<Rightarrow> double" where
  "clamp v lo hi = (if dless v lo then lo else if dless hi v then hi else v)"

definition derive_seed_spec :: "pystr \<Rightarrow> double" where
  "derive_seed_spec password =
     clamp (int_truediv \<bar>uint (foldl acc32_step 0 password)\<bar> (2 ^ 32 - 1))
       (float_lit (1 / 10000)) (float_lit (9999 / 10000))"

section \<open>Auxiliary notions for the proofs\<close>

definition unit_double :: "double \<Rightarrow> bool" where
  \<comment> \<open>a finite value in the closed unit interval\<close>
  "unit_double x = (case x of Finite a \<Rightarrow> 0 \<le> a \<and> a \<le> 1 | _ \<Rightarrow> False)"

definition keybytes :: "pystr \<Rightarrow> nat \<Rightarrow> byte list" where
  \<comment> \<open>the first \<open>n\<close> keystream bytes of a password\<close>
  "keybytes password n = map word_of_int (keystream_spec (generate_entropy_seed password) n)"

definition xor_bytes :: "byte list \<Rightarrow> byte list \<Rightarrow> byte list" where
  "xor_bytes bs ks = map (\<lambda>(b, k). b XOR k) (zip bs ks)"

definition dy :: "int \<Rightarrow> int \<Rightarrow> double" where
  \<comment> \<open>the dyadic number \<open>m * 2 ^ e\<close>; every finite binary64 value has this form\<close>
  "dy m e = Finite (of_int m * 2 powi e)"

definition rdy :: "int \<Rightarrow> int \<Rightarrow> double" where
  "rdy m e = round_double (of_int m * 2 powi e)"

definition rne_shift :: "int \<Rightarrow> nat \<Rightarrow> int" where
  \<comment> \<open>\<open>m / 2 ^ s\<close> rounded to the nearest integer, ties to even, in integer arithmetic\<close>
  "rne_shift m s = (let q = m div 2 ^ s; r = m mod 2 ^ s in
     if 2 * r < 2 ^ s then q else if 2 ^ s < 2 * r then q + 1
     else if even q then q else q + 1)"

definition rne_pick :: "int \<Rightarrow> int \<Rightarrow> int \<Rightarrow> int" where
  \<comment> \<open>the choice made by \<open>rne_shift\<close>, from quotient, remainder and divisor\<close>
  "rne_pick q r h = (if 2 * r < h then q else if h < 2 * r then q + 1
     else if even q then q else q + 1)"

definition rdy_n :: "int \<Rightarrow> int \<Rightarrow> int \<Rightarrow> double" where
  \<comment> \<open>\<open>rdy m e\<close>, given the bit length \<open>n\<close> of \<open>\<bar>m\<bar>\<close>\<close>
  "rdy_n m e n = (if n + e \<le> 1023
     then (if max (n - 53) (- 1074 - e) \<le> 0 then dy m e
           else dy (rne_shift m (nat (max (n - 53) (- 1074 - e)))) (e + max (n - 53) (- 1074 - e)))
     else rdy m e)"

definition emit_from :: "double \<Rightarrow> double \<Rightarrow> nat \<Rightarrow> (error + int) list" where
  \<comment> \<open>one round of the emission loop, after the two maps have been applied\<close>
  "emit_from x y n = (case py_int (scaled x y) of
       Inl e \<Rightarrow> [Inl e]
     | Inr v \<Rightarrow> Inr (v AND 0xFF) # emit n x y)"

definition is_lower_hex :: "char \<Rightarrow> bool" where
  "is_lower_hex c = (c \<in> set ''0123456789abcdef'')"

section \<open>Properties of rounding\<close>

lemma round_half_even_of_int: "round_half_even (of_int n) = n"
  by (simp add: round_half_even_def)

lemma round_half_even_cases: "round_half_even q = \<lfloor>q\<rfloor> \<or> round_half_even q = \<lfloor>q\<rfloor> + 1"
  by (simp add: round_half_even_def Let_def)

lemma round_half_even_err: "\<bar>of_int (round_half_even q) - q\<bar> \<le> 1/2"
proof -
  have "of_int \<lfloor>q\<rfloor> \<le> q" "q < of_int \<lfloor>q\<rfloor> + 1" by linarith+
  then show ?thesis
    unfolding round_half_even_def Let_def by (simp add: abs_le_iff)
qed

lemma round_half_even_le: "q \<le> of_int N \<Longrightarrow> round_half_even q \<le> N"
proof -
  assume h: "q \<le> of_int N"
  show ?thesis
  proof (cases "q = of_int N")
    case True then show ?thesis by (simp add: round_half_even_of_int)
  next
    case False
    with h have "q < of_int N" by simp
    then have "\<lfloor>q\<rfloor> < N" by (simp add: floor_less_iff)
    with round_half_even_cases [of q] show ?thesis by auto
  qed
qed

lemma round_half_even_ge: "of_int N \<le> q \<Longrightarrow> N \<le> round_half_even q"
proof -
  assume "of_int N \<le> q"
  then have "N \<le> \<lfloor>q\<rfloor>" by (simp add: le_floor_iff)
  with round_half_even_cases [of q] show ?thesis by auto
qed

lemma expo_bounds:
  assumes "r \<noteq> 0"
  shows "2 powi (expo r) \<le> \<bar>r\<bar>" and "\<bar>r\<bar> < 2 powi (expo r + 1)"
proof -
  obtain a b where q: "quotient_of \<bar>r\<bar> = (a, b)" by (cases "quotient_of \<bar>r\<bar>")
  then have b: "0 < b" and r: "\<bar>r\<bar> = of_int a / of_int b"
    using quotient_of_denom_pos quotient_of_div by blast+
  from assms have "0 < \<bar>r\<bar>" by simp
  with r b have a: "0 < a" by (simp add: zero_less_divide_iff)
  let ?la = "bitlen a" and ?lb = "bitlen b"
  from bitlen_bounds [OF a] have a1: "2 ^ nat (?la - 1) \<le> a" and a2: "a < 2 ^ nat ?la" by auto
  from bitlen_bounds [OF b] have b1: "2 ^ nat (?lb - 1) \<le> b" and b2: "b < 2 ^ nat ?lb" by auto
  have la: "1 \<le> ?la" using a by (simp add: bitlen_alt_def)
  have lb: "1 \<le> ?lb" using b by (simp add: bitlen_alt_def)
  have A1: "(2::rat) powi (?la - 1) \<le> of_int a"
  proof -
    have "(of_int (2 ^ nat (?la - 1)) :: rat) \<le> of_int a" using a1 by (simp only: of_int_le_iff)
    then show ?thesis using la by (simp add: power_int_def)
  qed
  have A2: "(of_int a :: rat) < 2 powi ?la"
  proof -
    have "(of_int a :: rat) < of_int (2 ^ nat ?la)" using a2 by (simp only: of_int_less_iff)
    then show ?thesis using la by (simp add: power_int_def)
  qed
  have B1: "(2::rat) powi (?lb - 1) \<le> of_int b"
  proof -
    have "(of_int (2 ^ nat (?lb - 1)) :: rat) \<le> of_int b" using b1 by (simp only: of_int_le_iff)
    then show ?thesis using lb by (simp add: power_int_def)
  qed
  have B2: "(of_int b :: rat) < 2 powi ?lb"
  proof -
    have "(of_int b :: rat) < of_int (2 ^ nat ?lb)" using b2 by (simp only: of_int_less_iff)
    then show ?thesis using lb by (simp add: power_int_def)
  qed
  have bpos: "(0::rat) < of_int b" using b by simp
  have lo: "(2::rat) powi (?la - ?lb - 1) \<le> \<bar>r\<bar>"
  proof -
    have "(2::rat) powi (?la - ?lb - 1) * of_int b \<le> 2 powi (?la - ?lb - 1) * 2 powi ?lb"
      using B2 by (intro mult_left_mono) auto
    also have "\<dots> = 2 powi (?la - 1)" by (simp add: power_int_add [symmetric])
    also have "\<dots> \<le> of_int a" by (rule A1)
    finally show ?thesis using bpos by (simp add: r pos_le_divide_eq)
  qed
  have hi: "\<bar>r\<bar> < (2::rat) powi (?la - ?lb + 1)"
  proof -
    have "(of_int a :: rat) < 2 powi ?la" by (rule A2)
    also have "\<dots> = 2 powi (?la - ?lb + 1) * 2 powi (?lb - 1)" by (simp add: power_int_add [symmetric])
    also have "\<dots> \<le> 2 powi (?la - ?lb + 1) * of_int b"
      using B1 by (intro mult_left_mono) auto
    finally show ?thesis using bpos by (simp add: r pos_divide_less_eq)
  qed
  show "2 powi (expo r) \<le> \<bar>r\<bar>"
    using lo by (auto simp: expo_def q Let_def)
  show "\<bar>r\<bar> < 2 powi (expo r + 1)"
    using hi by (auto simp: expo_def q Let_def not_le)
qed

lemma two_powi_mono: "m \<le> n \<Longrightarrow> (2::rat) powi m \<le> 2 powi n"
  by (rule power_int_increasing) simp_all

lemma two_powi_less_D: "(2::rat) powi m < 2 powi n \<Longrightarrow> m < n"
  using two_powi_mono [of n m] by (cases "m < n") auto

lemma expo_unique:
  assumes "2 powi e \<le> \<bar>r\<bar>" "\<bar>r\<bar> < 2 powi (e + 1)"
  shows "expo r = e"
proof -
  have nz: "r \<noteq> 0"
  proof
    assume "r = 0"
    with assms(1) have "(2::rat) powi e \<le> 0" by simp
    moreover have "(0::rat) < 2 powi e" by simp
    ultimately show False by linarith
  qed
  note b = expo_bounds [OF nz]
  have "(2::rat) powi e < 2 powi (expo r + 1)" using assms(1) b(2) by simp
  then have 1: "e < expo r + 1" by (rule two_powi_less_D)
  have "(2::rat) powi (expo r) < 2 powi (e + 1)" using assms(2) b(1) by simp
  then have 2: "expo r < e + 1" by (rule two_powi_less_D)
  from 1 2 show ?thesis by simp
qed

lemma round_half_even_unique:
  assumes "\<bar>q - of_int m\<bar> < 1 / 2"
  shows "round_half_even q = m"
proof -
  have "\<bar>(of_int (round_half_even q) :: rat) - of_int m\<bar> < 1"
    using round_half_even_err [of q] assms by linarith
  then have "\<bar>(of_int (round_half_even q - m) :: rat)\<bar> < of_int 1" by simp
  then have "\<bar>round_half_even q - m\<bar> < 1"
    unfolding of_int_abs [symmetric] by (simp only: of_int_less_iff)
  then show ?thesis by simp
qed

lemma expo_le:
  assumes "r \<noteq> 0" "\<bar>r\<bar> < 2 powi (E + 1)"
  shows "expo r \<le> E"
proof -
  have "(2::rat) powi (expo r) < 2 powi (E + 1)"
    using expo_bounds(1) [OF assms(1)] assms(2) by simp
  then have "expo r < E + 1" by (rule two_powi_less_D)
  then show ?thesis by simp
qed

lemma two_powi_split: "k \<le> j \<Longrightarrow> (2::rat) powi j = of_int (2 ^ nat (j - k)) * 2 powi k"
proof -
  assume "k \<le> j"
  then have "(2::rat) powi j = 2 powi (j - k) * 2 powi k"
    by (simp add: power_int_add [symmetric])
  also have "(2::rat) powi (j - k) = of_int (2 ^ nat (j - k))"
    using \<open>k \<le> j\<close> by (simp add: power_int_def)
  finally show ?thesis .
qed

lemma round_to_le:
  assumes "k \<le> j" "r \<le> of_int N * 2 powi j"
  shows "round_to r k \<le> of_int N * 2 powi j"
proof -
  have pos: "(0::rat) < 2 powi k" by simp
  have c: "(of_int N :: rat) * 2 powi j = of_int (N * 2 ^ nat (j - k)) * 2 powi k"
    using two_powi_split [OF assms(1)] by simp
  have "r / 2 powi k \<le> of_int (N * 2 ^ nat (j - k))"
    using assms(2) pos unfolding c by (simp add: pos_divide_le_eq)
  then have "round_half_even (r / 2 powi k) \<le> N * 2 ^ nat (j - k)"
    by (rule round_half_even_le)
  then have "(of_int (round_half_even (r / 2 powi k)) :: rat) \<le> of_int (N * 2 ^ nat (j - k))"
    by (simp only: of_int_le_iff)
  then have "round_to r k \<le> of_int (N * 2 ^ nat (j - k)) * 2 powi k"
    unfolding round_to_def using pos by (simp only: mult_le_cancel_right_pos)
  then show ?thesis unfolding c .
qed

lemma round_to_nonneg:
  assumes "0 \<le> r"
  shows "0 \<le> round_to r k"
proof -
  have "(of_int 0 :: rat) \<le> r / 2 powi k" using assms by simp
  then have "0 \<le> round_half_even (r / 2 powi k)" by (rule round_half_even_ge)
  then show ?thesis unfolding round_to_def by simp
qed

lemma round_to_err: "\<bar>round_to r k - r\<bar> \<le> 2 powi (k - 1)"
proof -
  have pos: "(0::rat) < 2 powi k" by simp
  let ?n = "round_half_even (r / 2 powi k)"
  have "round_to r k - r = (of_int ?n - r / 2 powi k) * 2 powi k"
    unfolding round_to_def using pos by (simp add: algebra_simps)
  then have "\<bar>round_to r k - r\<bar> = \<bar>of_int ?n - r / 2 powi k\<bar> * 2 powi k"
    using pos by (simp add: abs_mult)
  also have "\<dots> \<le> (1 / 2) * 2 powi k"
    using round_half_even_err [of "r / 2 powi k"] pos by (intro mult_right_mono) auto
  also have "\<dots> = 2 powi (k - 1)" by (simp add: power_int_diff)
  finally show ?thesis .
qed

lemma round_double_nonneg_le:
  assumes "0 \<le> r" "r \<le> of_int N * 2 powi j" "N < 2 ^ 53" "- 1074 \<le> j"
    and "(of_int N :: rat) * 2 powi j < 2 ^ 1024"
  shows "\<exists>v. round_double r = Finite v \<and> 0 \<le> v \<and> v \<le> of_int N * 2 powi j"
proof (cases "r = 0")
  case True
  then have "0 \<le> (of_int N :: rat) * 2 powi j" using assms(2) by simp
  with True show ?thesis by (simp add: round_double_def)
next
  case False
  let ?k = "max (expo r) (- 1022) - 52"
  let ?v = "round_to r ?k"
  have rpos: "0 < r" using False assms(1) by simp
  have "(of_int N :: rat) < of_int (2 ^ 53)" using assms(3) by (simp only: of_int_less_iff)
  then have "(of_int N :: rat) * 2 powi j < 2 ^ 53 * 2 powi j" by simp
  also have "\<dots> = 2 powi (52 + j + 1)"
    by (simp add: power_int_add)
  finally have "\<bar>r\<bar> < 2 powi (52 + j + 1)" using rpos assms(2) by simp
  then have "expo r \<le> 52 + j" using False by (intro expo_le)
  then have kj: "?k \<le> j" using assms(4) by simp
  have le: "?v \<le> of_int N * 2 powi j" using kj assms(2) by (rule round_to_le)
  have ge: "0 \<le> ?v" using assms(1) by (rule round_to_nonneg)
  have "\<not> (2::rat) ^ 1024 \<le> ?v" using le assms(5) by simp
  moreover have "\<not> ?v \<le> - ((2::rat) ^ 1024)" using ge by simp
  ultimately have "round_double r = Finite ?v"
    using False by (simp add: round_double_def Let_def)
  with le ge show ?thesis by blast
qed

lemma round_double_err:
  assumes "0 < r" "r < 2 powi (E + 1)" "- 1022 \<le> E" "round_double r = Finite v"
  shows "\<bar>v - r\<bar> \<le> 2 powi (E - 53)"
proof -
  let ?k = "max (expo r) (- 1022) - 52"
  have nz: "r \<noteq> 0" using assms(1) by simp
  have "round_double r = Finite (round_to r ?k)"
    using assms(4) nz by (simp add: round_double_def Let_def split: if_splits)
  with assms(4) have v: "v = round_to r ?k" by simp
  have "expo r \<le> E" using nz assms(1,2) by (intro expo_le) simp_all
  then have "?k - 1 \<le> E - 53" using assms(3) by simp
  then have "(2::rat) powi (?k - 1) \<le> 2 powi (E - 53)" by (rule two_powi_mono)
  with round_to_err [of r ?k] show ?thesis unfolding v by linarith
qed

lemma round_double_cert:
  assumes "2 powi E \<le> r" "r < 2 powi (E + 1)" "- 1022 \<le> E" "E < 1023"
    and "\<bar>r - of_int m * 2 powi (E - 52)\<bar> < 2 powi (E - 53)"
  shows "round_double r = Finite (of_int m * 2 powi (E - 52))"
proof -
  have p: "(0::rat) < 2 powi E" by simp
  with assms(1) have rpos: "0 < r" by linarith
  have e: "expo r = E" using assms(1,2) rpos by (intro expo_unique) simp_all
  have k: "max (expo r) (- 1022) - 52 = E - 52" using e assms(3) by simp
  have pk: "(0::rat) < 2 powi (E - 52)" by simp
  have "\<bar>r / 2 powi (E - 52) - of_int m\<bar> = \<bar>r - of_int m * 2 powi (E - 52)\<bar> / 2 powi (E - 52)"
    using pk by (simp add: field_simps abs_divide [symmetric] del: zero_less_power_int)
  also have "\<dots> < 2 powi (E - 53) / 2 powi (E - 52)"
    using assms(5) pk by (simp add: divide_strict_right_mono)
  also have "\<dots> = 1 / 2" by (simp add: power_int_diff)
  finally have "round_half_even (r / 2 powi (E - 52)) = m" by (rule round_half_even_unique)
  then have v: "round_to r (E - 52) = of_int m * 2 powi (E - 52)" by (simp add: round_to_def)
  have "of_int m * 2 powi (E - 52) < r + 2 powi (E - 53)" using assms(5) by linarith
  also have "\<dots> < 2 powi (E + 1) + 2 powi (E + 1)"
    using assms(2) two_powi_mono [of "E - 53" "E + 1"] by simp
  also have "\<dots> = 2 powi (E + 2)" by (simp add: power_int_add)
  also have "\<dots> \<le> 2 powi 1024" using assms(4) by (intro two_powi_mono) simp
  finally have hi: "\<not> (2::rat) ^ 1024 \<le> of_int m * 2 powi (E - 52)" by simp
  have "r - 2 powi (E - 53) < of_int m * 2 powi (E - 52)" using assms(5) by linarith
  moreover have "(2::rat) powi (E - 53) \<le> 2 powi E" by (intro two_powi_mono) simp
  ultimately have "(0::rat) \<le> of_int m * 2 powi (E - 52)" using assms(1) by linarith
  then have lo: "\<not> of_int m * 2 powi (E - 52) \<le> - ((2::rat) ^ 1024)" by simp
  show ?thesis using rpos hi lo by (simp add: round_double_def k v Let_def)
qed

section \<open>The constants of the source as binary64 values\<close>

lemma lit_399: "float_lit (399 / 100) = Finite (2246170314151035 / 2 ^ 49)"
  unfolding float_lit_def
  using round_double_cert [of 1 "399 / 100" 8984681256604140] by simp

lemma lit_199: "float_lit (199 / 100) = Finite (8962163258467287 / 2 ^ 52)"
  unfolding float_lit_def
  using round_double_cert [of 0 "199 / 100" 8962163258467287] by simp

lemma lit_half: "float_lit (1 / 2) = Finite (1 / 2)"
  unfolding float_lit_def
  using round_double_cert [of "- 1" "1 / 2" "2 ^ 52"] by simp

lemma lit_lo: "float_lit (1 / 10000) = Finite (7378697629483821 / 2 ^ 66)"
  unfolding float_lit_def
  using round_double_cert [of "- 14" "1 / 10000" 7378697629483821] by simp

lemma lit_hi: "float_lit (9999 / 10000) = Finite (4503149267407759 / 2 ^ 52)"
  unfolding float_lit_def
  using round_double_cert [of "- 1" "9999 / 10000" 9006298534815518] by simp

lemma from_int_1: "from_int 1 = Finite 1"
  unfolding from_int_def
  using round_double_cert [of 0 1 "2 ^ 52"] by simp

lemma from_int_2: "from_int 2 = Finite 2"
  unfolding from_int_def
  using round_double_cert [of 1 2 "2 ^ 52"] by simp

lemma from_int_127: "from_int 127 = Finite 127"
  unfolding from_int_def
  using round_double_cert [of 6 127 "127 * 2 ^ 46"] by simp

lemma from_int_256: "from_int 256 = Finite 256"
  unfolding from_int_def
  using round_double_cert [of 8 256 "2 ^ 52"] by simp

section \<open>The trajectories stay in the unit interval\<close>

lemma unit_doubleE:
  assumes "unit_double x"
  obtains a where "x = Finite a" "0 \<le> a" "a \<le> 1"
  using assms by (cases x) (auto simp: unit_double_def)

lemma unit_doubleI: "0 \<le> a \<Longrightarrow> a \<le> 1 \<Longrightarrow> unit_double (Finite a)"
  by (simp add: unit_double_def)

lemma round_double_le_int:
  assumes "0 \<le> r" "r \<le> of_int N" "N < 2 ^ 53"
  obtains v where "round_double r = Finite v" "0 \<le> v" "v \<le> of_int N"
proof -
  have "(of_int N :: rat) < of_int (2 ^ 53)" using assms(3) by (simp only: of_int_less_iff)
  also have "\<dots> < 2 ^ 1024" by simp
  finally have "(of_int N :: rat) * 2 powi 0 < 2 ^ 1024" by simp
  moreover have "r \<le> of_int N * 2 powi 0" using assms(2) by simp
  ultimately have "\<exists>v. round_double r = Finite v \<and> 0 \<le> v \<and> v \<le> of_int N * 2 powi 0"
    using assms(1,3) by (intro round_double_nonneg_le) simp_all
  then show ?thesis using that by auto
qed

lemma round_double_le_half:
  assumes "0 \<le> r" "r \<le> 1 / 2"
  obtains v where "round_double r = Finite v" "0 \<le> v" "v \<le> 1 / 2"
proof -
  have "r \<le> of_int 1 * 2 powi (- 1)" using assms(2) by (simp add: power_int_minus)
  moreover have "(of_int 1 :: rat) * 2 powi (- 1) < 2 ^ 1024" by (simp add: power_int_minus)
  ultimately have "\<exists>v. round_double r = Finite v \<and> 0 \<le> v \<and> v \<le> of_int 1 * 2 powi (- 1)"
    using assms(1) by (intro round_double_nonneg_le) simp_all
  then show ?thesis using that by (auto simp: power_int_minus)
qed

lemma round_double_unit:
  assumes "0 \<le> r" "r \<le> 1"
  shows "unit_double (round_double r)"
proof -
  from assms have "r \<le> of_int 1" by simp
  with assms(1) obtain v where "round_double r = Finite v" "0 \<le> v" "v \<le> of_int 1"
    by (rule round_double_le_int) simp
  then show ?thesis by (simp add: unit_double_def)
qed

lemma round_double_upper:
  assumes "0 \<le> r" "r < 2 powi (E + 1)" "- 1022 \<le> E" "round_double r = Finite v"
  shows "v \<le> r + 2 powi (E - 53)"
proof (cases "r = 0")
  case True
  with assms(4) have "v = 0" by (simp add: round_double_def)
  with True show ?thesis by simp
next
  case False
  with assms(1) have "0 < r" by simp
  from round_double_err [OF this assms(2,3,4)] show ?thesis by linarith
qed

lemma logistic_unit:
  assumes "unit_double x"
  shows "unit_double (logistic_map x)"
proof -
  from assms obtain a where x: "x = Finite a" and a: "0 \<le> a" "a \<le> 1" by (rule unit_doubleE)
  define c :: rat where "c = 2246170314151035 / 2 ^ 49"
  define e1 :: rat where "e1 = 2 powi (1 - 53)"
  define e2 :: rat where "e2 = 2 powi (0 - 53)"
  have c: "0 \<le> c" "c < 4" by (simp_all add: c_def)
  have e: "0 \<le> e1" "0 \<le> e2" by (simp_all add: e1_def e2_def)
  have ca: "0 \<le> c * a" using c a by simp
  have "c * a \<le> c * 1" using a c by (intro mult_left_mono) simp_all
  then have ca4: "c * a < 4" using c by simp
  then have "c * a \<le> of_int 4" by simp
  with ca obtain t1 where t1: "round_double (c * a) = Finite t1" "0 \<le> t1" "t1 \<le> of_int 4"
    by (rule round_double_le_int) simp
  have "c * a < 2 powi (1 + 1)" using ca4 by simp
  from round_double_upper [OF ca this _ t1(1)] have u1: "t1 \<le> c * a + e1"
    by (simp add: e1_def)
  have na: "0 \<le> 1 - a" "1 - a \<le> of_int 1" using a by simp_all
  then obtain t2 where t2: "round_double (1 - a) = Finite t2" "0 \<le> t2" "t2 \<le> of_int 1"
    by (rule round_double_le_int) simp
  have "1 - a < 2 powi (0 + 1)" using a by simp
  from round_double_upper [OF na(1) this _ t2(1)] have u2: "t2 \<le> 1 - a + e2"
    by (simp add: e2_def)
  have sq: "a * (1 - a) \<le> 1 / 4"
  proof -
    have "0 \<le> (a - 1 / 2) * (a - 1 / 2)" by simp
    then show ?thesis by (simp add: algebra_simps)
  qed
  have "t1 * t2 \<le> (c * a + e1) * (1 - a + e2)"
    using u1 u2 t1(2) t2(2) ca e by (intro mult_mono) simp_all
  also have "\<dots> = c * (a * (1 - a)) + (c * a) * e2 + e1 * (1 - a) + e1 * e2"
    by (simp add: algebra_simps)
  also have "\<dots> \<le> c * (1 / 4) + 4 * e2 + e1 * 1 + e1 * e2"
    using sq c ca4 e a by (intro add_mono mult_left_mono mult_right_mono) simp_all
  also have "\<dots> \<le> 1"
    by (simp add: c_def e1_def e2_def power_int_minus)
  finally have "t1 * t2 \<le> 1" .
  moreover have "0 \<le> t1 * t2" using t1(2) t2(2) by simp
  ultimately have "unit_double (round_double (t1 * t2))" by (intro round_double_unit)
  moreover have "logistic_map x = round_double (t1 * t2)"
  proof -
    have l: "float_lit (399 / 100) = Finite c" by (simp add: lit_399 c_def)
    have s: "dsub (Finite 1) (Finite a) = Finite t2" by (simp add: dsub_def t2(1))
    show ?thesis by (simp only: logistic_map_def x l from_int_1 s dmul.simps t1(1))
  qed
  ultimately show ?thesis by simp
qed

lemma tent_unit:
  assumes "unit_double x"
  shows "unit_double (tent_map x)"
proof -
  from assms obtain a where x: "x = Finite a" and a: "0 \<le> a" "a \<le> 1" by (rule unit_doubleE)
  define mu :: rat where "mu = 8962163258467287 / 2 ^ 52"
  have mu: "0 \<le> mu" "mu \<le> 2" by (simp_all add: mu_def)
  show ?thesis
  proof (cases "a < 1 / 2")
    case True
    have "mu * a \<le> 2 * (1 / 2)" using mu a True by (intro mult_mono) simp_all
    moreover have "0 \<le> mu * a" using mu a by simp
    ultimately have "unit_double (round_double (mu * a))" by (intro round_double_unit) simp_all
    moreover have "tent_map x = round_double (mu * a)"
    proof -
      have l: "float_lit (199 / 100) = Finite mu" by (simp add: lit_199 mu_def)
      have d: "dless (Finite a) (Finite (1 / 2))" using True by simp
      show ?thesis by (simp only: tent_map_def x l lit_half d if_True dmul.simps)
    qed
    ultimately show ?thesis by simp
  next
    case False
    with a have "0 \<le> 1 - a" "1 - a \<le> 1 / 2" by simp_all
    then obtain t where t: "round_double (1 - a) = Finite t" "0 \<le> t" "t \<le> 1 / 2"
      by (rule round_double_le_half)
    have "mu * t \<le> 2 * (1 / 2)" using mu t by (intro mult_mono) simp_all
    moreover have "0 \<le> mu * t" using mu t by simp
    ultimately have "unit_double (round_double (mu * t))" by (intro round_double_unit) simp_all
    moreover have "tent_map x = round_double (mu * t)"
    proof -
      have l: "float_lit (199 / 100) = Finite mu" by (simp add: lit_199 mu_def)
      have d: "\<not> dless (Finite a) (Finite (1 / 2))" using False by simp
      have s: "dsub (Finite 1) (Finite a) = Finite t" by (simp add: dsub_def t(1))
      show ?thesis by (simp only: tent_map_def x l lit_half d if_False from_int_1 s dmul.simps)
    qed
    ultimately show ?thesis by simp
  qed
qed

section \<open>The seed\<close>

lemma acc_step_uint: "acc_step (uint w) c = uint (acc32_step w c)"
proof -
  have m: "x AND 0xFFFFFFFF = take_bit 32 x" for x :: int
    by (simp add: take_bit_eq_mask mask_eq_exp_minus_1)
  have w: "(w * 31 + of_nat c :: 32 word) = word_of_int (uint w * 31 + int c)" by simp
  have "uint (word_of_int (uint w * 31 + int c) :: 32 word) = take_bit 32 (uint w * 31 + int c)"
    by (simp only: uint_word_of_int_eq) simp
  then have a: "uint (w * 31 + of_nat c) = take_bit 32 (uint w * 31 + int c)" by (simp only: w)
  have p: "push_bit 5 (uint w) - uint w + int c = uint w * 31 + int c"
    by (simp add: push_bit_eq_mult)
  have x: "uint v XOR drop_bit 16 (uint v) = uint (v XOR drop_bit 16 v)" for v :: "32 word"
    by transfer (simp add: take_bit_drop_bit)
  show ?thesis
    unfolding acc_step_def acc32_step_def Let_def m p a [symmetric] x ..
qed

lemma acc_fold_uint: "foldl acc_step (uint w) p = uint (foldl acc32_step w p)"
  by (induction p arbitrary: w) (simp_all add: acc_step_uint)

lemma acc_uint: "foldl acc_step 0 p = uint (foldl acc32_step 0 p)"
  using acc_fold_uint [of 0 p] by simp

lemma acc_range: "0 \<le> foldl acc_step 0 p" "foldl acc_step 0 p \<le> 4294967295"
proof -
  show "0 \<le> foldl acc_step 0 p" by (simp add: acc_uint)
  have "uint (foldl acc32_step 0 p) < 2 ^ 32"
    using uint_bounded [of "foldl acc32_step 0 p"] by simp
  then show "foldl acc_step 0 p \<le> 4294967295" by (simp add: acc_uint)
qed

lemma seed_range:
  obtains s where "generate_entropy_seed p = Finite s"
    "7378697629483821 / 2 ^ 66 \<le> s" "s \<le> 4503149267407759 / 2 ^ 52"
proof -
  let ?acc = "foldl acc_step 0 p"
  have "0 \<le> (of_int \<bar>?acc\<bar> :: rat) / of_int 4294967295" by simp
  moreover have "(of_int \<bar>?acc\<bar> :: rat) / of_int 4294967295 \<le> of_int 1"
    using acc_range [of p] by simp
  ultimately obtain r where r: "int_truediv \<bar>?acc\<bar> 4294967295 = Finite r"
    unfolding int_truediv_def by (rule round_double_le_int) simp
  show ?thesis
  proof (rule that)
    show "generate_entropy_seed p =
      Finite (if 7378697629483821 / 2 ^ 66 < (if r < 4503149267407759 / 2 ^ 52 then r
                 else 4503149267407759 / 2 ^ 52)
              then (if r < 4503149267407759 / 2 ^ 52 then r else 4503149267407759 / 2 ^ 52)
              else 7378697629483821 / 2 ^ 66)"
      by (simp add: generate_entropy_seed_def Let_def r lit_lo lit_hi py_min_def py_max_def)
  qed (simp_all split: if_splits)
qed

lemma seed_unit: "unit_double (generate_entropy_seed p)"
proof -
  obtain s where "generate_entropy_seed p = Finite s"
    "7378697629483821 / 2 ^ 66 \<le> s" "s \<le> 4503149267407759 / 2 ^ 52"
    by (rule seed_range)
  then show ?thesis by (simp add: unit_double_def)
qed

lemma seed_spec: "generate_entropy_seed p = derive_seed_spec p"
proof -
  let ?acc = "foldl acc_step 0 p"
  have "0 \<le> (of_int \<bar>?acc\<bar> :: rat) / of_int 4294967295" by simp
  moreover have "(of_int \<bar>?acc\<bar> :: rat) / of_int 4294967295 \<le> of_int 1"
    using acc_range [of p] by simp
  ultimately obtain r where r: "int_truediv \<bar>?acc\<bar> 4294967295 = Finite r"
    unfolding int_truediv_def by (rule round_double_le_int) simp
  have r': "int_truediv (uint (foldl acc32_step 0 p)) 4294967295 = Finite r"
    using r by (simp add: acc_uint)
  show ?thesis
    by (simp add: generate_entropy_seed_def derive_seed_spec_def clamp_def Let_def r r'
        lit_lo lit_hi py_min_def py_max_def)
qed

section \<open>The entropy stream\<close>

lemma warm_up_funpow: "warm_up n x y = ((logistic_map ^^ n) x, (tent_map ^^ n) y)"
  by (induction n arbitrary: x y) (simp_all add: funpow_swap1)

lemma logistic_funpow_unit: "unit_double x \<Longrightarrow> unit_double ((logistic_map ^^ n) x)"
  by (induction n) (simp_all add: logistic_unit)

lemma tent_funpow_unit: "unit_double x \<Longrightarrow> unit_double ((tent_map ^^ n) x)"
  by (induction n) (simp_all add: tent_unit)

lemma scaled_range:
  assumes "unit_double x" "unit_double y"
  obtains v where "scaled x y = Finite v" "0 \<le> v" "v \<le> 256"
proof -
  from assms(1) obtain a where x: "x = Finite a" and a: "0 \<le> a" "a \<le> 1" by (rule unit_doubleE)
  from assms(2) obtain b where y: "y = Finite b" and b: "0 \<le> b" "b \<le> 1" by (rule unit_doubleE)
  have "0 \<le> a + b" "a + b \<le> of_int 2" using a b by simp_all
  then obtain s where s: "round_double (a + b) = Finite s" "0 \<le> s" "s \<le> of_int 2"
    by (rule round_double_le_int) simp
  then have "0 \<le> s / 2" "s / 2 \<le> of_int 1" by simp_all
  then obtain h where h: "round_double (s / 2) = Finite h" "0 \<le> h" "h \<le> of_int 1"
    by (rule round_double_le_int) simp
  then have "0 \<le> h * 256" "h * 256 \<le> of_int 256" by simp_all
  then obtain v where v: "round_double (h * 256) = Finite v" "0 \<le> v" "v \<le> of_int 256"
    by (rule round_double_le_int) simp
  have "scaled x y = Finite v"
    by (simp add: x y s(1) from_int_2 h(1) from_int_256 v(1))
  with v show ?thesis using that by simp
qed

lemma py_int_scaled:
  assumes "unit_double x" "unit_double y"
  shows "py_int (scaled x y) = Inr (dfloor (scaled x y))"
proof -
  from assms obtain v where "scaled x y = Finite v" "0 \<le> v" by (rule scaled_range)
  then show ?thesis by simp
qed

lemma emit_closed:
  assumes "unit_double x" "unit_double y"
  shows "emit n x y =
    map (\<lambda>i. Inr (dfloor (scaled ((logistic_map ^^ Suc i) x) ((tent_map ^^ Suc i) y)) AND 0xFF))
      [0..<n]"
  using assms
proof (induction n arbitrary: x y)
  case 0
  show ?case by simp
next
  case (Suc n)
  have u: "unit_double (logistic_map x)" "unit_double (tent_map y)"
    using Suc.prems by (simp_all add: logistic_unit tent_unit)
  have "emit (Suc n) x y =
      Inr (dfloor (scaled (logistic_map x) (tent_map y)) AND 0xFF)
        # emit n (logistic_map x) (tent_map y)"
    by (simp add: py_int_scaled [OF u])
  also have "emit n (logistic_map x) (tent_map y) =
      map (\<lambda>i. Inr (dfloor (scaled ((logistic_map ^^ Suc (Suc i)) x)
                                    ((tent_map ^^ Suc (Suc i)) y)) AND 0xFF)) [0..<n]"
    by (simp add: Suc.IH [OF u] funpow_swap1)
  finally show ?case
    by (simp only: map_upt_Suc [where n = n] funpow.simps o_apply id_apply)
qed

lemma entropy_stream_closed:
  assumes "unit_double seed"
  shows "entropy_stream seed n = map Inr (keystream_spec seed (nat n))"
proof -
  have u: "unit_double ((logistic_map ^^ 100) seed)"
      "unit_double ((tent_map ^^ 100) (tent_map seed))"
    using assms by (simp_all add: logistic_funpow_unit tent_funpow_unit tent_unit)
  have f: "(f ^^ Suc i) ((f ^^ 100) z) = (f ^^ (100 + Suc i)) z" for f :: "double \<Rightarrow> double" and i z
    by (simp only: funpow_add o_apply add.commute [of 100])
  show ?thesis
    unfolding entropy_stream_def warm_up_funpow prod.case emit_closed [OF u] keystream_spec_def
      Let_def f
    by (simp add: comp_def)
qed

lemma keystream_spec_length: "length (keystream_spec seed n) = n"
  by (simp add: keystream_spec_def)

lemma keystream_spec_take: "m \<le> n \<Longrightarrow> take m (keystream_spec seed n) = keystream_spec seed m"
  by (simp add: keystream_spec_def take_map min_def)

lemma byte_mask_range: "0 \<le> v AND (255::int)" "v AND (255::int) < 256"
proof -
  show "0 \<le> v AND (255::int)" by simp
  have "v AND 255 \<le> 255" by (rule AND_upper2) simp
  then show "v AND (255::int) < 256" by simp
qed

lemma keystream_spec_range:
  assumes "k \<in> set (keystream_spec seed n)"
  shows "0 \<le> k" "k < 256"
  using assms byte_mask_range by (auto simp: keystream_spec_def Let_def)

section \<open>Bytes, hexadecimal output and packing\<close>

lemma ebind_Inr [simp]: "ebind (Inr x) f = f x"
  by (simp add: ebind_def)

lemma ebind_Inl [simp]: "ebind (Inl e) f = Inl e"
  by (simp add: ebind_def)

lemma ebind_weak_cong: "m = m' \<Longrightarrow> ebind m f = ebind m' f"
  by simp

lemma ebind_eq_Inr: "ebind m f = Inr y \<longleftrightarrow> (\<exists>x. m = Inr x \<and> f x = Inr y)"
  by (cases m) simp_all

lemma unat_byte_of_int: "0 \<le> k \<Longrightarrow> k < 256 \<Longrightarrow> unat (word_of_int k :: byte) = nat k"
  by (simp add: unat_eq_nat_uint uint_word_of_int take_bit_int_eq_self)

lemma to_byte_range: "0 \<le> k \<Longrightarrow> k < 256 \<Longrightarrow> to_byte k = Inr (word_of_int k)"
  by (simp add: to_byte_def)

lemma to_byte_xor:
  assumes "0 \<le> k" "k < 256"
  shows "to_byte (uint b XOR k) = Inr (b XOR word_of_int k)"
proof -
  have "0 \<le> uint b XOR k" using assms by simp
  moreover have "uint b XOR k < 2 ^ 8"
    using assms uint_bounded [of b] by (intro XOR_upper) simp_all
  moreover have "(word_of_int (uint b XOR k) :: byte) = b XOR word_of_int k"
    by (simp add: of_int_xor_eq)
  ultimately show ?thesis by (simp add: to_byte_def)
qed

lemma format_02x_byte:
  assumes "0 \<le> k" "k < 256"
  shows "format_02x k = [hexchar (nat k div 16), hexchar (nat k)]"
proof (cases "nat k < 16")
  case True
  then have "hexchar (nat k div 16) = CHR ''0''" by (simp add: hexchar_def)
  with True assms show ?thesis by (simp add: format_02x_def)
next
  case False
  moreover have "nat k div 16 < 16" using assms by simp
  moreover have "hexchar (nat k div 16 * 16 + nat k mod 16) = hexchar (nat k)"
    by simp
  ultimately show ?thesis
    using assms hex_digits.simps [of "nat k"] hex_digits.simps [of "nat k div 16"]
    by (simp add: format_02x_def)
qed

lemma format_02x_digits:
  assumes "0 \<le> k \<and> k < 256"
  shows "format_02x k = [''0123456789abcdef'' ! nat (k div 16), ''0123456789abcdef'' ! nat (k mod 16)]"
proof -
  have d: "nat (k div 16) = nat k div 16" "nat (k mod 16) = nat k mod 16"
    using assms by (simp_all add: nat_div_distrib nat_mod_distrib)
  from assms have k: "0 \<le> k" "k < 256" by simp_all
  then have "nat k < 256" by simp
  then have "nat k div 16 < 16" by simp
  then have "nat k div 16 mod 16 = nat k div 16" by simp
  then show ?thesis by (simp add: format_02x_byte [OF k] hexchar_def d)
qed

lemma bytes_hex_of_ints:
  assumes "\<And>k. k \<in> set ks \<Longrightarrow> 0 \<le> k \<and> k < 256"
  shows "bytes_hex (map word_of_int ks) = concat (map format_02x ks)"
  using assms
  by (induction ks) (simp_all add: bytes_hex_def format_02x_byte unat_byte_of_int)

lemma is_lower_hex_hexchar: "is_lower_hex (hexchar n)"
proof -
  have "n mod 16 < length ''0123456789abcdef''" by simp
  then have "''0123456789abcdef'' ! (n mod 16) \<in> set ''0123456789abcdef''" by (rule nth_mem)
  then show ?thesis unfolding is_lower_hex_def hexchar_def .
qed

lemma bytes_hex_length: "length (bytes_hex bs) = 2 * length bs"
  by (induction bs) (simp_all add: bytes_hex_def)

lemma bytes_hex_lower: "list_all is_lower_hex (bytes_hex bs)"
  by (induction bs) (simp_all add: bytes_hex_def is_lower_hex_hexchar)

lemma pack_arith:
  assumes "n < 2 ^ 32"
  shows "unat (of_nat (n div 2 ^ 24) :: byte) * 2 ^ 24 + unat (of_nat (n div 2 ^ 16) :: byte) * 2 ^ 16
     + unat (of_nat (n div 2 ^ 8) :: byte) * 2 ^ 8 + unat (of_nat n :: byte) = n"
proof -
  define q1 where "q1 = n div 256"
  define q2 where "q2 = q1 div 256"
  define q3 where "q3 = q2 div 256"
  have 1: "n = q1 * 256 + n mod 256" by (simp add: q1_def)
  have 2: "q1 = q2 * 256 + q1 mod 256" by (simp add: q2_def)
  have 3: "q2 = q3 * 256 + q2 mod 256" by (simp add: q3_def)
  have e2: "n div 65536 = q2" by (simp add: q2_def q1_def div_mult2_eq)
  have e3: "n div 16777216 = q3" by (simp add: q3_def q2_def q1_def div_mult2_eq)
  have "q3 < 256" using assms unfolding e3 [symmetric] by simp
  then have 4: "q3 mod 256 = q3" by simp
  have "q3 * 16777216 + q2 mod 256 * 65536 + q1 mod 256 * 256 + n mod 256 = n"
    using 1 2 3 by linarith
  then show ?thesis
    by (simp add: unat_of_nat e2 e3 4 q1_def [symmetric])
qed

lemma struct_pack_I_Inr:
  assumes "struct_pack_I n = Inr pre"
  shows "n < 2 ^ 32" "length pre = 4" "struct_unpack_I pre = Inr n"
proof -
  show n: "n < 2 ^ 32" using assms by (simp add: struct_pack_I_def split: if_splits)
  then have pre: "pre = [of_nat (n div 2 ^ 24), of_nat (n div 2 ^ 16), of_nat (n div 2 ^ 8), of_nat n]"
    using assms by (simp add: struct_pack_I_def)
  show "length pre = 4" by (simp add: pre)
  show "struct_unpack_I pre = Inr n"
    unfolding pre struct_unpack_I.simps using pack_arith [OF n] by simp
qed

lemma struct_pack_I_total: "n < 2 ^ 32 \<Longrightarrow> \<exists>pre. struct_pack_I n = Inr pre"
  by (simp add: struct_pack_I_def)

lemma struct_unpack_I_short: "length bs < 4 \<Longrightarrow> struct_unpack_I bs = Inl StructError"
  by (cases bs rule: struct_unpack_I.cases) simp_all

lemma struct_unpack_I_take4:
  "4 \<le> length bs \<Longrightarrow> \<exists>n. struct_unpack_I (take 4 bs) = Inr n"
proof -
  assume "4 \<le> length bs"
  then have "length (take 4 bs) = 4" by simp
  then obtain a b c d where "take 4 bs = [a, b, c, d]"
    by (cases "take 4 bs" rule: struct_unpack_I.cases) simp_all
  then show ?thesis by simp
qed

section \<open>Consumers of the stream\<close>

lemma next_n_Inr: "n \<le> length ks \<Longrightarrow> next_n n (map Inr ks) = Inr (take n ks)"
proof (induction n arbitrary: ks)
  case 0
  show ?case by simp
next
  case (Suc n)
  then obtain k ks' where ks: "ks = k # ks'" by (cases ks) simp_all
  with Suc show ?case by simp
qed

lemma store_all_range:
  assumes "\<And>k. k \<in> set ks \<Longrightarrow> 0 \<le> k \<and> k < 256"
  shows "store_all ks = Inr (map word_of_int ks)"
  using assms by (induction ks) (simp_all add: to_byte_range)

lemma xor_zip_range:
  assumes "\<And>k. k \<in> set ks \<Longrightarrow> 0 \<le> k \<and> k < 256"
  shows "xor_zip bs (map Inr ks) = Inr (xor_bytes bs (map word_of_int ks))"
  using assms
proof (induction bs arbitrary: ks)
  case Nil
  show ?case by (simp add: xor_bytes_def)
next
  case (Cons b bs)
  show ?case
  proof (cases ks)
    case Nil
    then show ?thesis by (simp add: xor_bytes_def)
  next
    case (Cons k ks')
    have k: "0 \<le> k" "k < 256" using Cons.prems [of k] Cons by simp_all
    have "xor_zip bs (map Inr ks') = Inr (xor_bytes bs (map word_of_int ks'))"
      using Cons.prems Cons by (intro Cons.IH) simp
    then show ?thesis using Cons by (simp add: to_byte_xor [OF k] xor_bytes_def)
  qed
qed

lemma xor_bytes_length: "length (xor_bytes bs ks) = min (length bs) (length ks)"
  by (simp add: xor_bytes_def)

lemma xor_bytes_twice:
  "length bs \<le> length ks \<Longrightarrow> xor_bytes (xor_bytes bs ks) ks = bs"
proof (induction bs arbitrary: ks)
  case Nil
  show ?case by (simp add: xor_bytes_def)
next
  case (Cons b bs)
  then obtain k ks' where ks: "ks = k # ks'" by (cases ks) simp_all
  have "xor_bytes (xor_bytes bs ks') ks' = bs" using Cons ks by simp
  then show ?case by (simp add: ks xor_bytes_def bit.xor_self xor.assoc)
qed

lemma hash_step_total:
  "\<exists>t. py_int (dmul (logistic_map (int_truediv (uint (s :: byte)) 256)) (from_int 127)) = Inr t"
proof -
  have g: "0 \<le> x \<Longrightarrow> x \<le> of_int 256 \<Longrightarrow> 0 \<le> x / of_int 256 \<and> x / of_int 256 \<le> 1" for x :: rat
    by simp
  have "uint s < 2 ^ 8" using uint_bounded [of s] by simp
  then have "uint s \<le> 256" by simp
  then have "(of_int (uint s) :: rat) \<le> of_int 256" by (rule iffD2 [OF of_int_le_iff])
  moreover have "0 \<le> (of_int (uint s) :: rat)" by (rule iffD2 [OF of_int_0_le_iff]) simp
  ultimately have "0 \<le> (of_int (uint s) :: rat) / of_int 256 \<and> (of_int (uint s) :: rat) / of_int 256 \<le> 1"
    by (intro g)
  then have "unit_double (int_truediv (uint s) 256)"
    unfolding int_truediv_def by (intro round_double_unit) blast+
  then have "unit_double (logistic_map (int_truediv (uint s) 256))" by (rule logistic_unit)
  then obtain l where l: "logistic_map (int_truediv (uint s) 256) = Finite l" "0 \<le> l" "l \<le> 1"
    by (rule unit_doubleE)
  then have "0 \<le> l * 127" "l * 127 \<le> of_int 127" by simp_all
  then obtain v where "round_double (l * 127) = Finite v"
    by (rule round_double_le_int) simp
  then show ?thesis by (simp add: l(1) from_int_127)
qed

lemma hash_loop_total: "\<exists>state'. hash_loop i data state = Inr state' \<and> length state' = length state"
proof (induction data arbitrary: i state)
  case Nil
  show ?case by simp
next
  case (Cons b data)
  let ?s = "state ! (i mod 32) XOR b"
  obtain t where t: "py_int (dmul (logistic_map (int_truediv (uint ?s) 256)) (from_int 127)) = Inr t"
    using hash_step_total by blast
  have "to_byte ((uint ?s + t) AND 0xFF) = Inr (word_of_int ((uint ?s + t) AND 0xFF))"
    using byte_mask_range [of "uint ?s + t"] by (intro to_byte_range) simp_all
  then show ?case
    using Cons.IH [of "Suc i" "state[i mod 32 := word_of_int ((uint ?s + t) AND 0xFF)]"] t
    by (simp add: Let_def)
qed

section \<open>Closed forms of the engine's functions\<close>

lemma stream_of_seed:
  "entropy_stream (generate_entropy_seed p) n =
     map Inr (keystream_spec (generate_entropy_seed p) (nat n))"
  by (rule entropy_stream_closed) (rule seed_unit)

lemma keybytes_length: "length (keybytes p n) = n"
  by (simp add: keybytes_def keystream_spec_length)

lemma keybytes_take: "m \<le> n \<Longrightarrow> take m (keybytes p n) = keybytes p m"
  by (simp add: keybytes_def keystream_spec_take take_map)

lemma keybytes_uint: "map uint (keybytes p n) = keystream_spec (generate_entropy_seed p) n"
proof -
  have "uint (word_of_int k :: byte) = k"
    if "k \<in> set (keystream_spec (generate_entropy_seed p) n)" for k
    using keystream_spec_range [OF that] by (simp add: uint_word_of_int take_bit_int_eq_self)
  then show ?thesis by (simp add: keybytes_def map_idI comp_def)
qed

lemma stream_keybytes:
  "entropy_stream (generate_entropy_seed p) (int n) = map (\<lambda>k. Inr (uint k)) (keybytes p n)"
proof -
  have "map (\<lambda>k. Inr (uint k)) (keybytes p n) = map Inr (map uint (keybytes p n))"
    by (simp add: comp_def)
  then show ?thesis unfolding keybytes_uint stream_of_seed nat_int by (rule sym)
qed

lemma fingerprint_closed:
  "generate_entropy_fingerprint p =
     Inr (concat (map format_02x (keystream_spec (generate_entropy_seed p) 32)))"
  by (simp add: generate_entropy_fingerprint_def Let_def stream_of_seed next_n_Inr
      keystream_spec_length)

lemma fingerprint_bytes_hex: "generate_entropy_fingerprint p = Inr (bytes_hex (keybytes p 32))"
  using bytes_hex_of_ints [of "keystream_spec (generate_entropy_seed p) 32"] keystream_spec_range
  by (simp add: fingerprint_closed keybytes_def)

lemma quantum_hash_closed:
  "quantum_hash d p = ebind (hash_loop 0 d (keybytes p 32)) (\<lambda>state. Inr (bytes_hex state))"
  using store_all_range [of "keystream_spec (generate_entropy_seed p) 32"] keystream_spec_range
  by (simp add: quantum_hash_def Let_def stream_of_seed next_n_Inr keystream_spec_length
      keybytes_def)

lemma quantum_hash_total:
  obtains state where "hash_loop 0 d (keybytes p 32) = Inr state" "length state = 32"
    "quantum_hash d p = Inr (bytes_hex state)"
proof -
  obtain state where "hash_loop 0 d (keybytes p 32) = Inr state"
    "length state = length (keybytes p 32)"
    using hash_loop_total by blast
  then show ?thesis using that by (simp add: quantum_hash_closed keybytes_length)
qed

lemma quantum_hash_empty: "quantum_hash [] p = generate_entropy_fingerprint p"
  by (simp add: quantum_hash_closed fingerprint_bytes_hex)

lemma xor_zip_stream:
  "xor_zip bs (entropy_stream (generate_entropy_seed p) (int n)) = Inr (xor_bytes bs (keybytes p n))"
  using xor_zip_range [of "keystream_spec (generate_entropy_seed p) n" bs] keystream_spec_range
  by (simp add: stream_of_seed keybytes_def)

lemma quantum_encrypt_closed:
  "quantum_encrypt d p =
     ebind (struct_pack_I (length d)) (\<lambda>pre.
     ebind (quantum_hash (pre @ xor_bytes d (keybytes p (length d))) p) (\<lambda>h.
       Inr (pre @ xor_bytes d (keybytes p (length d)), bytes_hex (keybytes p 32), h)))"
  by (simp add: quantum_encrypt_def Let_def fingerprint_bytes_hex xor_zip_stream)

lemma quantum_encrypt_Inr:
  assumes "quantum_encrypt d p = Inr (blob, fp, chk)"
  obtains pre where "struct_pack_I (length d) = Inr pre"
    "blob = pre @ xor_bytes d (keybytes p (length d))"
    "generate_entropy_fingerprint p = Inr fp" "quantum_hash blob p = Inr chk"
  using assms unfolding quantum_encrypt_closed
  by (auto simp: ebind_eq_Inr fingerprint_bytes_hex)

lemma quantum_encrypt_total:
  assumes "length d < 2 ^ 32"
  shows "\<exists>blob fp chk. quantum_encrypt d p = Inr (blob, fp, chk)"
proof -
  obtain pre where pre: "struct_pack_I (length d) = Inr pre"
    using struct_pack_I_total [OF assms] by blast
  obtain state where "quantum_hash (pre @ xor_bytes d (keybytes p (length d))) p = Inr (bytes_hex state)"
    by (rule quantum_hash_total)
  then show ?thesis by (simp add: quantum_encrypt_closed pre)
qed

lemma quantum_decrypt_closed:
  "quantum_decrypt blob p fp chk =
     (if generate_entropy_fingerprint p \<noteq> Inr fp \<or> quantum_hash blob p \<noteq> Inr chk then Inr None
      else case struct_unpack_I (take 4 blob) of
        Inl e \<Rightarrow> Inl e
      | Inr n \<Rightarrow> if 4 + n \<le> length blob
                 then Inr (Some (xor_bytes (take n (drop 4 blob)) (keybytes p n)))
                 else Inr None)"
proof -
  obtain state where h: "quantum_hash blob p = Inr (bytes_hex state)" by (rule quantum_hash_total)
  have x: "xor_bytes (drop 4 blob) (keybytes p n) = xor_bytes (take n (drop 4 blob)) (keybytes p n)"
    for n
  proof -
    have "zip (take n (drop 4 blob)) (keybytes p n)
        = zip (take n (drop 4 blob)) (take n (keybytes p n))"
      by (simp add: keybytes_length)
    also have "\<dots> = take n (zip (drop 4 blob) (keybytes p n))" by (simp only: take_zip)
    also have "\<dots> = zip (drop 4 blob) (keybytes p n)" by (simp add: keybytes_length)
    finally show ?thesis by (simp add: xor_bytes_def)
  qed
  have l: "4 \<le> length blob" if "struct_unpack_I (take 4 blob) = Inr n" for n
    using struct_unpack_I_short [of "take 4 blob"] that by (cases "4 \<le> length blob") simp_all
  show ?thesis
  proof (cases "generate_entropy_fingerprint p \<noteq> Inr fp \<or> quantum_hash blob p \<noteq> Inr chk")
    case True
    then show ?thesis
      by (auto simp: quantum_decrypt_def fingerprint_bytes_hex h)
  next
    case False
    then have c: "bytes_hex (keybytes p 32) = fp" "bytes_hex state = chk"
      by (simp_all add: fingerprint_bytes_hex h)
    show ?thesis
    proof (cases "struct_unpack_I (take 4 blob)")
      case (Inl e)
      with False c show ?thesis
        by (simp add: quantum_decrypt_def fingerprint_bytes_hex h)
    next
      case (Inr n)
      then have "4 \<le> length blob" by (rule l)
      then have "(min (length blob - 4) n = n) = (4 + n \<le> length blob)" by auto
      with False c Inr show ?thesis
        by (simp add: quantum_decrypt_def fingerprint_bytes_hex h Let_def xor_zip_stream
            xor_bytes_length keybytes_length x)
    qed
  qed
qed

section \<open>Evaluating the arithmetic on dyadic numbers\<close>

text \<open>
  The rounding of a dyadic number \<open>m * 2 ^ e\<close> is computed with integer operations alone.
  The rules below turn every operation of the model on such numbers into integer
  arithmetic, so that concrete trajectories can be evaluated by rewriting.
\<close>

lemma expo_dyadic:
  assumes "m \<noteq> 0"
  shows "expo (of_int m * 2 powi e) = bitlen \<bar>m\<bar> - 1 + e"
proof (rule expo_unique)
  let ?n = "bitlen \<bar>m\<bar>"
  have m: "0 < \<bar>m\<bar>" using assms by simp
  from bitlen_bounds [OF m] have b: "2 ^ nat (?n - 1) \<le> \<bar>m\<bar>" "\<bar>m\<bar> < 2 ^ nat ?n" by auto
  have n: "1 \<le> ?n" using m by (simp add: bitlen_alt_def)
  have pe: "(0::rat) < 2 powi e" by simp
  have abs: "\<bar>of_int m * 2 powi e\<bar> = (of_int \<bar>m\<bar> :: rat) * 2 powi e"
    by (simp add: abs_mult)
  have "(of_int (2 ^ nat (?n - 1)) :: rat) \<le> of_int \<bar>m\<bar>" using b(1) by (simp only: of_int_le_iff)
  then have "(2::rat) powi (?n - 1) \<le> of_int \<bar>m\<bar>" using n by (simp add: power_int_def)
  then have "(2::rat) powi (?n - 1) * 2 powi e \<le> of_int \<bar>m\<bar> * 2 powi e"
    using pe by (simp only: mult_le_cancel_right_pos)
  moreover have "(2::rat) powi (?n - 1 + e) = 2 powi (?n - 1) * 2 powi e"
    by (simp add: power_int_add)
  ultimately show "2 powi (?n - 1 + e) \<le> \<bar>of_int m * 2 powi e :: rat\<bar>"
    by (simp only: abs)
  have "(of_int \<bar>m\<bar> :: rat) < of_int (2 ^ nat ?n)" using b(2) by (simp only: of_int_less_iff)
  then have "(of_int \<bar>m\<bar> :: rat) < 2 powi ?n" using n by (simp add: power_int_def)
  then have "(of_int \<bar>m\<bar> :: rat) * 2 powi e < 2 powi ?n * 2 powi e"
    using pe by (simp only: mult_less_cancel_right_pos)
  moreover have "(2::rat) powi (?n - 1 + e + 1) = 2 powi ?n * 2 powi e"
    by (simp add: power_int_add)
  ultimately show "\<bar>of_int m * 2 powi e :: rat\<bar> < 2 powi (?n - 1 + e + 1)"
    by (simp only: abs)
qed

lemma round_half_even_shift: "round_half_even (of_int m / 2 ^ s) = rne_shift m s"
proof -
  have p: "(0::rat) < 2 ^ s" by simp
  have f: "\<lfloor>(of_int m :: rat) / 2 ^ s\<rfloor> = m div 2 ^ s"
    using floor_divide_of_int_eq [of m "2 ^ s", where ?'a = rat] by simp
  have "(of_int m :: rat) = of_int (m div 2 ^ s * 2 ^ s + m mod 2 ^ s)"
    by (simp only: div_mult_mod_eq)
  also have "\<dots> = of_int (m div 2 ^ s) * 2 ^ s + of_int (m mod 2 ^ s)" by simp
  finally have d: "(of_int m :: rat) / 2 ^ s - of_int (m div 2 ^ s) = of_int (m mod 2 ^ s) / 2 ^ s"
    using p by (simp add: field_simps)
  have lt: "(of_int (m mod 2 ^ s) :: rat) / 2 ^ s < 1 / 2 \<longleftrightarrow> 2 * (m mod 2 ^ s) < 2 ^ s"
  proof -
    have "(of_int (m mod 2 ^ s) :: rat) / 2 ^ s < 1 / 2
        \<longleftrightarrow> (of_int (2 * (m mod 2 ^ s)) :: rat) < of_int (2 ^ s)"
      using p by (simp add: field_simps)
    then show ?thesis by (simp only: of_int_less_iff)
  qed
  have gt: "1 / 2 < (of_int (m mod 2 ^ s) :: rat) / 2 ^ s \<longleftrightarrow> 2 ^ s < 2 * (m mod 2 ^ s)"
  proof -
    have "1 / 2 < (of_int (m mod 2 ^ s) :: rat) / 2 ^ s
        \<longleftrightarrow> (of_int (2 ^ s) :: rat) < of_int (2 * (m mod 2 ^ s))"
      using p by (simp add: field_simps)
    then show ?thesis by (simp only: of_int_less_iff)
  qed
  show ?thesis
    unfolding round_half_even_def rne_shift_def Let_def f d lt gt ..
qed

lemma rdy_zero: "rdy 0 e = dy 0 0"
  by (simp add: rdy_def dy_def round_double_def)

lemma rdy_eval:
  assumes "m \<noteq> 0" "bitlen \<bar>m\<bar> + e \<le> 1023"
  shows "rdy m e = (if max (bitlen \<bar>m\<bar> - 53) (- 1074 - e) \<le> 0 then dy m e
     else dy (rne_shift m (nat (max (bitlen \<bar>m\<bar> - 53) (- 1074 - e))))
             (e + max (bitlen \<bar>m\<bar> - 53) (- 1074 - e)))"
proof -
  let ?r = "of_int m * 2 powi e :: rat"
  define s where "s = max (bitlen \<bar>m\<bar> - 53) (- 1074 - e)"
  let ?k = "max (expo ?r) (- 1022) - 52"
  have nz: "?r \<noteq> 0" using assms(1) by simp
  have ex: "expo ?r = bitlen \<bar>m\<bar> - 1 + e" using assms(1) by (rule expo_dyadic)
  have k: "?k = e + s" unfolding ex s_def by simp
  have v: "round_to ?r ?k = (if s \<le> 0 then ?r else of_int (rne_shift m (nat s)) * 2 powi (e + s))"
  proof (cases "s \<le> 0")
    case True
    then have p: "(2::rat) powi (- s) = of_int (2 ^ nat (- s))"
      by (simp add: power_int_nonneg_exp)
    have "?r / 2 powi (e + s) = of_int m * 2 powi (- s)"
      by (simp add: power_int_add power_int_minus field_simps)
    then have "?r / 2 powi (e + s) = of_int (m * 2 ^ nat (- s))" unfolding p by simp
    then have "round_to ?r (e + s) = of_int (m * 2 ^ nat (- s)) * 2 powi (e + s)"
      unfolding round_to_def by (simp only: round_half_even_of_int)
    also have "\<dots> = of_int m * (of_int (2 ^ nat (- s)) * 2 powi (e + s))" by simp
    also have "(of_int (2 ^ nat (- s)) :: rat) * 2 powi (e + s) = 2 powi e"
      unfolding p [symmetric] by (simp add: power_int_add [symmetric])
    finally show ?thesis using True by (simp only: k if_True)
  next
    case False
    then have p: "(2::rat) powi s = 2 ^ nat s" by (simp add: power_int_nonneg_exp)
    have "?r / 2 powi (e + s) = of_int m / 2 powi s"
      by (simp add: power_int_add field_simps)
    then have "round_to ?r (e + s) = of_int (rne_shift m (nat s)) * 2 powi (e + s)"
      unfolding round_to_def p by (simp only: round_half_even_shift)
    then show ?thesis using False by (simp only: k if_False)
  qed
  have big: "\<bar>?r\<bar> < 2 powi 1023"
  proof -
    have "\<bar>?r\<bar> < 2 powi (expo ?r + 1)" using nz by (rule expo_bounds)
    also have "\<dots> \<le> 2 powi 1023" unfolding ex using assms(2) by (intro two_powi_mono) simp
    finally show ?thesis .
  qed
  have "?k - 1 \<le> 1023" unfolding ex using assms(2) by simp
  then have "(2::rat) powi (?k - 1) \<le> 2 powi 1023" by (rule two_powi_mono)
  with round_to_err [of ?r ?k] big have "\<bar>round_to ?r ?k\<bar> < 2 powi 1023 + 2 powi 1023"
    by linarith
  also have "\<dots> = (2::rat) ^ 1024" by simp
  finally have fin: "\<not> (2::rat) ^ 1024 \<le> round_to ?r ?k" "\<not> round_to ?r ?k \<le> - ((2::rat) ^ 1024)"
    by linarith+
  have "rdy m e = Finite (round_to ?r ?k)"
    unfolding rdy_def round_double_def Let_def using nz fin by (simp only: if_False)
  then show ?thesis unfolding v s_def [symmetric] by (simp add: dy_def)
qed

lemma rdy_to_n: "m \<noteq> 0 \<Longrightarrow> rdy m e = rdy_n m e (bitlen \<bar>m\<bar>)"
  using rdy_eval [of m e] by (simp add: rdy_n_def)

lemma rne_shift_bits: "rne_shift m s = rne_pick (drop_bit s m) (take_bit s m) (2 ^ s)"
  by (simp add: rne_shift_def rne_pick_def Let_def drop_bit_eq_div take_bit_eq_mod)

lemma dmul_dy: "dmul (dy a e) (dy b f) = rdy (a * b) (e + f)"
  by (simp add: dy_def rdy_def power_int_add mult_ac)

lemma dy_align:
  "e \<le> f \<Longrightarrow> (of_int b :: rat) * 2 powi f = of_int (b * 2 ^ nat (f - e)) * 2 powi e"
  using two_powi_split [of e f] by simp

lemma dadd_dy:
  "dadd (dy a e) (dy b f) = (if e \<le> f then rdy (a + b * 2 ^ nat (f - e)) e
     else rdy (a * 2 ^ nat (e - f) + b) f)"
proof (cases "e \<le> f")
  case True
  have "(of_int a :: rat) * 2 powi e + of_int b * 2 powi f
      = of_int (a + b * 2 ^ nat (f - e)) * 2 powi e"
    unfolding dy_align [OF True] by (simp add: algebra_simps)
  with True show ?thesis by (simp add: dy_def rdy_def)
next
  case False
  then have fe: "f \<le> e" by simp
  have "(of_int a :: rat) * 2 powi e + of_int b * 2 powi f
      = of_int (a * 2 ^ nat (e - f) + b) * 2 powi f"
    unfolding dy_align [OF fe] by (simp add: algebra_simps)
  with False show ?thesis by (simp add: dy_def rdy_def)
qed

lemma dsub_dy:
  "dsub (dy a e) (dy b f) = (if e \<le> f then rdy (a - b * 2 ^ nat (f - e)) e
     else rdy (a * 2 ^ nat (e - f) - b) f)"
proof -
  have "dneg (dy b f) = dy (- b) f" by (simp add: dy_def)
  then show ?thesis by (simp add: dsub_def dadd_dy)
qed

lemma ddiv_dy_2: "ddiv (dy a e) (dy 2 0) = rdy a (e - 1)"
  by (simp add: dy_def rdy_def power_int_diff)

lemma dless_dy:
  "dless (dy a e) (dy b f) = (if e \<le> f then a < b * 2 ^ nat (f - e) else a * 2 ^ nat (e - f) < b)"
proof (cases "e \<le> f")
  case True
  have "(of_int a :: rat) * 2 powi e < of_int (b * 2 ^ nat (f - e)) * 2 powi e
      \<longleftrightarrow> (of_int a :: rat) < of_int (b * 2 ^ nat (f - e))"
    by (simp only: mult_less_cancel_right_pos zero_less_power_int zero_less_numeral)
  with True show ?thesis
    unfolding dy_def dless.simps dy_align [OF True] by (simp only: of_int_less_iff if_True)
next
  case False
  then have fe: "f \<le> e" by simp
  have "(of_int (a * 2 ^ nat (e - f)) :: rat) * 2 powi f < of_int b * 2 powi f
      \<longleftrightarrow> (of_int (a * 2 ^ nat (e - f)) :: rat) < of_int b"
    by (simp only: mult_less_cancel_right_pos zero_less_power_int zero_less_numeral)
  with False show ?thesis
    unfolding dy_def dless.simps dy_align [OF fe] by (simp only: of_int_less_iff if_False)
qed

lemma py_int_dy_nonneg:
  assumes "0 \<le> a" "e \<le> 0"
  shows "py_int (dy a e) = Inr (a div 2 ^ nat (- e))"
proof -
  have "(2::rat) powi e = 1 / of_int (2 ^ nat (- e))"
    using assms(2) by (simp add: power_int_def field_simps)
  then have r: "(of_int a :: rat) * 2 powi e = of_int a / of_int (2 ^ nat (- e))" by simp
  have "0 \<le> (of_int a :: rat) * 2 powi e" using assms(1) by simp
  then show ?thesis
    unfolding dy_def py_int.simps by (simp only: if_True r floor_divide_of_int_eq)
qed

lemma dy_lits:
  "float_lit (399 / 100) = dy 2246170314151035 (- 49)"
  "float_lit (199 / 100) = dy 8962163258467287 (- 52)"
  "float_lit (1 / 2) = dy 1 (- 1)"
  "float_lit (1 / 10000) = dy 7378697629483821 (- 66)"
  "float_lit (9999 / 10000) = dy 4503149267407759 (- 52)"
  "from_int 1 = dy 1 0" "from_int 2 = dy 2 0" "from_int 127 = dy 127 0" "from_int 256 = dy 256 0"
  by (simp_all add: lit_399 lit_199 lit_half lit_lo lit_hi from_int_1 from_int_2 from_int_127
      from_int_256 dy_def power_int_minus)

lemma int_truediv_256: "int_truediv a 256 = rdy a (- 8)"
  by (simp add: int_truediv_def rdy_def power_int_minus)

lemma bitlen_numeral:
  "bitlen 1 = 1"
  "bitlen (numeral (num.Bit0 n)) = 1 + bitlen (numeral n)"
  "bitlen (numeral (num.Bit1 n)) = 1 + bitlen (numeral n)"
proof -
  show "bitlen 1 = 1" by (simp add: bitlen_alt_def)
  have "bitlen (numeral (num.Bit0 n)) = bitlen (numeral (num.Bit0 n) div 2) + 1"
    by (subst compute_bitlen) simp
  then show "bitlen (numeral (num.Bit0 n)) = 1 + bitlen (numeral n)" by simp
  have "bitlen (numeral (num.Bit1 n)) = bitlen (numeral (num.Bit1 n) div 2) + 1"
    by (subst compute_bitlen) simp
  then show "bitlen (numeral (num.Bit1 n)) = 1 + bitlen (numeral n)" by simp
qed

lemma warm_up_numeral:
  "warm_up (numeral k) x y = warm_up (pred_numeral k) (logistic_map x) (tent_map y)"
  by (simp add: numeral_eq_Suc)

lemma emit_numeral:
  "emit (numeral k) x y = emit_from (logistic_map x) (tent_map y) (pred_numeral k)"
  by (simp add: numeral_eq_Suc emit_from_def)

lemmas dy_eval = rdy_zero rdy_to_n rdy_n_def rne_shift_bits rne_pick_def dmul_dy dadd_dy dsub_dy
  ddiv_dy_2 dless_dy py_int_dy_nonneg dy_lits int_truediv_256 bitlen_numeral
  logistic_map_def tent_map_def warm_up_numeral emit_numeral emit_from_def

section \<open>A concrete run: the password \<open>correcthorse\<close>\<close>

lemma list_update_numeral: "(x # xs)[numeral k := y] = x # xs[pred_numeral k := y]"
  by (simp add: numeral_eq_Suc)

lemma acc_correcthorse: "foldl acc_step 0 (str ''correcthorse'') = 2609466440"
  by (simp add: str_def acc_step_def Let_def)

lemma seed_correcthorse: "generate_entropy_seed (str ''correcthorse'') = dy 2736223882426517 (- 52)"
proof -
  have "int_truediv 2609466440 4294967295 = Finite (of_int 5472447764853034 * 2 powi (- 1 - 52))"
    unfolding int_truediv_def
    by (rule round_double_cert) (simp_all add: power_int_minus)
  then have "int_truediv 2609466440 4294967295 = Finite (2736223882426517 / 2 ^ 52)"
    by (simp add: power_int_minus)
  then show ?thesis
    by (simp add: generate_entropy_seed_def Let_def acc_correcthorse lit_lo lit_hi py_min_def
        py_max_def dy_def power_int_minus)
qed

lemma stream_correcthorse:
  "entropy_stream (dy 2736223882426517 (- 52)) 32 = map Inr
    [125, 78, 180, 153, 110, 121, 154, 198, 145, 135, 239, 32, 68, 144, 70, 138,
     22, 47, 104, 166, 196, 125, 81, 185, 152, 91, 125, 77, 172, 112, 116, 247]"
  by (simp add: entropy_stream_def dy_eval)

lemma keystream_correcthorse:
  "keystream_spec (generate_entropy_seed (str ''correcthorse'')) 32 =
    [125, 78, 180, 153, 110, 121, 154, 198, 145, 135, 239, 32, 68, 144, 70, 138,
     22, 47, 104, 166, 196, 125, 81, 185, 152, 91, 125, 77, 172, 112, 116, 247]"
proof -
  have "map Inr (keystream_spec (generate_entropy_seed (str ''correcthorse'')) 32)
      = (entropy_stream (generate_entropy_seed (str ''correcthorse'')) 32 :: (error + int) list)"
    by (simp add: stream_of_seed)
  then show ?thesis
    unfolding seed_correcthorse stream_correcthorse by (simp only: inj_map_eq_map inj_Inr)
qed

lemma keybytes_correcthorse:
  "keybytes (str ''correcthorse'') 32 =
    [125, 78, 180, 153, 110, 121, 154, 198, 145, 135, 239, 32, 68, 144, 70, 138,
     22, 47, 104, 166, 196, 125, 81, 185, 152, 91, 125, 77, 172, 112, 116, 247]"
  by (simp add: keybytes_def keystream_correcthorse)

lemma keybytes_correcthorse_11:
  "keybytes (str ''correcthorse'') 11 = [125, 78, 180, 153, 110, 121, 154, 198, 145, 135, 239]"
proof -
  have "keybytes (str ''correcthorse'') 11 = take 11 (keybytes (str ''correcthorse'') 32)"
    by (simp add: keybytes_take)
  then show ?thesis by (simp add: keybytes_correcthorse)
qed

lemma fingerprint_correcthorse:
  "generate_entropy_fingerprint (str ''correcthorse'') =
     Inr ''7d4eb4996e799ac69187ef204490468a162f68a6c47d51b9985b7d4dac7074f7''"
  by (simp add: fingerprint_bytes_hex keybytes_correcthorse bytes_hex_def hexchar_def)

lemmas hash_eval = quantum_hash_closed keybytes_correcthorse list_update_numeral to_byte_def
  bytes_hex_def hexchar_def dy_eval

lemma hash_empty_blob:
  "quantum_hash [0, 0, 0, 0] (str ''correcthorse'') =
     Inr ''fbb91d126e799ac69187ef204490468a162f68a6c47d51b9985b7d4dac7074f7''"
  by (simp add: hash_eval cong: ebind_weak_cong)

lemma hash_one_zero:
  "quantum_hash [0] (str ''correcthorse'') =
     Inr ''fb4eb4996e799ac69187ef204490468a162f68a6c47d51b9985b7d4dac7074f7''"
  by (simp add: hash_eval cong: ebind_weak_cong)

lemma hash_hello_blob:
  "quantum_hash [0, 0, 0, 11, 21, 43, 216, 245, 1, 89, 237, 169, 227, 235, 139] (str ''correcthorse'') =
     Inr ''fbb91d0ef9c0a2830c18050719f91d8a162f68a6c47d51b9985b7d4dac7074f7''"
  by (simp add: hash_eval cong: ebind_weak_cong)

lemma hash_long_blob:
  "quantum_hash [0, 0, 0, 1, 21, 9, 9] (str ''correcthorse'') =
     Inr ''fbb91d12f9ec0ec69187ef204490468a162f68a6c47d51b9985b7d4dac7074f7''"
  by (simp add: hash_eval cong: ebind_weak_cong)

lemma encrypt_hello:
  "quantum_encrypt [104, 101, 108, 108, 111, 32, 119, 111, 114, 108, 100] (str ''correcthorse'') =
     Inr ([0, 0, 0, 11, 21, 43, 216, 245, 1, 89, 237, 169, 227, 235, 139],
          ''7d4eb4996e799ac69187ef204490468a162f68a6c47d51b9985b7d4dac7074f7'',
          ''fbb91d0ef9c0a2830c18050719f91d8a162f68a6c47d51b9985b7d4dac7074f7'')"
proof -
  have b: "xor_bytes [104, 101, 108, 108, 111, 32, 119, 111, 114, 108, 100]
      (keybytes (str ''correcthorse'') 11) = [21, 43, 216, 245, 1, 89, 237, 169, 227, 235, 139]"
    by (simp add: keybytes_correcthorse_11 xor_bytes_def)
  have f: "bytes_hex (keybytes (str ''correcthorse'') 32) =
      ''7d4eb4996e799ac69187ef204490468a162f68a6c47d51b9985b7d4dac7074f7''"
    using fingerprint_correcthorse by (simp add: fingerprint_bytes_hex)
  have p: "struct_pack_I 11 = Inr [0, 0, 0, 11]" by (simp add: struct_pack_I_def)
  have l: "length [104, 101, 108, 108, 111, 32, 119, 111, 114, 108, 100 :: byte] = 11" by simp
  show ?thesis
    unfolding quantum_encrypt_closed l by (simp add: p b f hash_hello_blob)
qed

lemma hash_truncated_blob:
  "quantum_hash [0, 0, 0, 11, 21] (str ''correcthorse'') =
     Inr ''fbb91d0ef9799ac69187ef204490468a162f68a6c47d51b9985b7d4dac7074f7''"
  by (simp add: hash_eval cong: ebind_weak_cong)

section \<open>Passwords that share a seed, and one that does not\<close>

lemma same_seed:
  assumes "generate_entropy_seed p2 = generate_entropy_seed p1"
  shows "generate_entropy_fingerprint p2 = generate_entropy_fingerprint p1"
    and "quantum_hash d p2 = quantum_hash d p1"
    and "keybytes p2 n = keybytes p1 n"
  using assms
  by (simp_all add: generate_entropy_fingerprint_def quantum_hash_def keybytes_def)

lemma seed_passyfoxakmu:
  "generate_entropy_seed (str ''passyfoxakmu'') = generate_entropy_seed (str ''correcthorse'')"
proof -
  have "foldl acc_step 0 (str ''passyfoxakmu'') = 2609466440"
    by (simp add: str_def acc_step_def Let_def)
  then show ?thesis by (simp add: generate_entropy_seed_def acc_correcthorse)
qed

lemma seed_wrongpassword: "generate_entropy_seed (str ''wrongpassword'') = dy 5993151728011965 (- 53)"
proof -
  have a: "foldl acc_step 0 (str ''wrongpassword'') = 2857757438"
    by (simp add: str_def acc_step_def Let_def)
  have "int_truediv 2857757438 4294967295 = Finite (of_int 5993151728011965 * 2 powi (- 1 - 52))"
    unfolding int_truediv_def
    by (rule round_double_cert) (simp_all add: power_int_minus)
  then have "int_truediv 2857757438 4294967295 = Finite (5993151728011965 / 2 ^ 53)"
    by (simp add: power_int_minus)
  then show ?thesis
    by (simp add: generate_entropy_seed_def Let_def a lit_lo lit_hi py_min_def
        py_max_def dy_def power_int_minus)
qed

lemma stream_wrongpassword:
  "entropy_stream (dy 5993151728011965 (- 53)) 32 = map Inr
    [63, 156, 168, 184, 120, 45, 119, 225, 62, 135, 95, 180, 109, 60, 142, 201,
     115, 104, 228, 65, 158, 211, 96, 146, 193, 130, 73, 168, 115, 147, 235, 49]"
  by (simp add: entropy_stream_def dy_eval)

lemma fingerprint_wrongpassword:
  "generate_entropy_fingerprint (str ''wrongpassword'') =
     Inr ''3f9ca8b8782d77e13e875fb46d3c8ec97368e4419ed36092c18249a87393eb31''"
proof -
  have "map Inr (keystream_spec (generate_entropy_seed (str ''wrongpassword'')) 32)
      = (entropy_stream (generate_entropy_seed (str ''wrongpassword'')) 32 :: (error + int) list)"
    by (simp add: stream_of_seed)
  then have "keystream_spec (generate_entropy_seed (str ''wrongpassword'')) 32 =
    [63, 156, 168, 184, 120, 45, 119, 225, 62, 135, 95, 180, 109, 60, 142, 201,
     115, 104, 228, 65, 158, 211, 96, 146, 193, 130, 73, 168, 115, 147, 235, 49]"
    unfolding seed_wrongpassword stream_wrongpassword by (simp only: inj_map_eq_map inj_Inr)
  then show ?thesis
    by (simp add: fingerprint_bytes_hex keybytes_def bytes_hex_def hexchar_def)
qed

section \<open>The claims\<close>

lemma decrypt_of_encrypt:
  assumes "quantum_encrypt d p1 = Inr (blob, fp, chk)"
    and "generate_entropy_seed p2 = generate_entropy_seed p1"
  shows "quantum_decrypt blob p2 fp chk = Inr (Some d)"
proof -
  from assms(1) obtain pre where pre: "struct_pack_I (length d) = Inr pre"
    and blob: "blob = pre @ xor_bytes d (keybytes p1 (length d))"
    and fp: "generate_entropy_fingerprint p1 = Inr fp"
    and chk: "quantum_hash blob p1 = Inr chk"
    by (rule quantum_encrypt_Inr)
  note s = same_seed [OF assms(2)]
  have l: "length pre = 4" and u: "struct_unpack_I pre = Inr (length d)"
    using struct_pack_I_Inr [OF pre] by simp_all
  have t: "take 4 blob = pre" "drop 4 blob = xor_bytes d (keybytes p1 (length d))"
    using l by (simp_all add: blob)
  have n: "length (xor_bytes d (keybytes p1 (length d))) = length d"
    by (simp add: xor_bytes_length keybytes_length)
  have "4 + length d \<le> length blob" using l n by (simp add: blob)
  moreover have "xor_bytes (xor_bytes d (keybytes p1 (length d))) (keybytes p1 (length d)) = d"
    by (rule xor_bytes_twice) (simp add: keybytes_length)
  ultimately show ?thesis
    unfolding quantum_decrypt_closed s fp chk t u using n by simp
qed

text \<open>
  C1 (round trip).  For every non-empty byte buffer \<open>d\<close> and every password \<open>p\<close>: if
  \<open>quantum_encrypt d p\<close> returns \<open>(blob, fp, chk)\<close>, then \<open>quantum_decrypt blob p fp chk\<close>
  returns exactly \<open>d\<close>.  (Encryption does return for every buffer shorter than \<open>2 ^ 32\<close>
  bytes, see \<open>quantum_encrypt_total\<close>; for a longer one \<open>struct.pack\<close> raises.)
\<close>

theorem C1_roundtrip:
  assumes "d \<noteq> []" and "quantum_encrypt d p = Inr (blob, fp, chk)"
  shows "quantum_decrypt blob p fp chk = Inr (Some d)"
  using assms(2) by (rule decrypt_of_encrypt) simp

theorem C1_roundtrip_witness:
  "[104, 101, 108, 108, 111, 32, 119, 111, 114, 108, 100] \<noteq> ([] :: byte list)
   \<and> quantum_encrypt [104, 101, 108, 108, 111, 32, 119, 111, 114, 108, 100] (str ''correcthorse'')
       = Inr ([0, 0, 0, 11, 21, 43, 216, 245, 1, 89, 237, 169, 227, 235, 139],
              ''7d4eb4996e799ac69187ef204490468a162f68a6c47d51b9985b7d4dac7074f7'',
              ''fbb91d0ef9c0a2830c18050719f91d8a162f68a6c47d51b9985b7d4dac7074f7'')
   \<and> quantum_decrypt [0, 0, 0, 11, 21, 43, 216, 245, 1, 89, 237, 169, 227, 235, 139]
         (str ''correcthorse'')
         ''7d4eb4996e799ac69187ef204490468a162f68a6c47d51b9985b7d4dac7074f7''
         ''fbb91d0ef9c0a2830c18050719f91d8a162f68a6c47d51b9985b7d4dac7074f7''
       = Inr (Some [104, 101, 108, 108, 111, 32, 119, 111, 114, 108, 100])"
proof -
  have "[104, 101, 108, 108, 111, 32, 119, 111, 114, 108, 100] \<noteq> ([] :: byte list)" by simp
  from this C1_roundtrip [OF this encrypt_hello] encrypt_hello show ?thesis by blast
qed

text \<open>
  C2 (empty input) does not hold of the engine: called with zero-length data and the
  password \<open>correcthorse\<close>, \<open>quantum_encrypt\<close> raises nothing and returns a blob.
\<close>

theorem C2_counterexample:
  "quantum_encrypt [] (str ''correcthorse'')
     = Inr ([0, 0, 0, 0],
            ''7d4eb4996e799ac69187ef204490468a162f68a6c47d51b9985b7d4dac7074f7'',
            ''fbb91d126e799ac69187ef204490468a162f68a6c47d51b9985b7d4dac7074f7'')"
proof -
  have "bytes_hex (keybytes (str ''correcthorse'') 32) =
      ''7d4eb4996e799ac69187ef204490468a162f68a6c47d51b9985b7d4dac7074f7''"
    using fingerprint_correcthorse by (simp add: fingerprint_bytes_hex)
  then show ?thesis
    unfolding quantum_encrypt_closed
    by (simp add: struct_pack_I_def xor_bytes_def hash_empty_blob)
qed

text \<open>
  C2 (empty input), as the code has it.  For every password the engine accepts zero-length
  data: \<open>quantum_encrypt\<close> returns the four-byte blob \<open>00 00 00 00\<close> with the fingerprint
  and a checksum.  The rejection is the service's: \<open>encrypt_file\<close> answers an empty upload
  with HTTP 400 "Empty file" before the engine is called.
\<close>

theorem C2_empty_input_amended:
  "(\<exists>fp chk. quantum_encrypt [] p = Inr ([0, 0, 0, 0], fp, chk)
       \<and> generate_entropy_fingerprint p = Inr fp)
   \<and> (8 \<le> length p \<longrightarrow> encrypt_file [] p = Inl (HTTPException 400 ''Empty file''))"
proof -
  obtain state where "quantum_hash [0, 0, 0, 0] p = Inr (bytes_hex state)"
    by (rule quantum_hash_total)
  then have "\<exists>fp chk. quantum_encrypt [] p = Inr ([0, 0, 0, 0], fp, chk)
       \<and> generate_entropy_fingerprint p = Inr fp"
    unfolding quantum_encrypt_closed
    by (simp add: struct_pack_I_def xor_bytes_def fingerprint_bytes_hex)
  moreover have "8 \<le> length p \<longrightarrow> encrypt_file [] p = Inl (HTTPException 400 ''Empty file'')"
    by (auto simp: encrypt_file_def)
  ultimately show ?thesis by blast
qed

theorem C2_empty_input_witness:
  "8 \<le> length (str ''correcthorse'')
   \<and> encrypt_file [] (str ''correcthorse'') = Inl (HTTPException 400 ''Empty file'')"
  using C2_empty_input_amended [of "str ''correcthorse''"] by (simp add: str_def)

text \<open>
  C3 (blob layout).  Whenever \<open>quantum_encrypt d p\<close> returns a blob, the blob has
  \<open>4 + len(d)\<close> bytes and its first four bytes decode, big-endian, to \<open>len(d)\<close>; it does
  return for every buffer shorter than \<open>2 ^ 32\<close> bytes.  In particular the 11 bytes of
  \<open>hello world\<close> under the password \<open>correcthorse\<close> give a 15-byte blob whose prefix
  decodes to 11.
\<close>

theorem C3_blob_layout:
  "(quantum_encrypt d p = Inr (blob, fp, chk)
      \<longrightarrow> length blob = 4 + length d \<and> struct_unpack_I (take 4 blob) = Inr (length d))
   \<and> (length d < 2 ^ 32 \<longrightarrow> (\<exists>blob fp chk. quantum_encrypt d p = Inr (blob, fp, chk)))
   \<and> (\<exists>blob fp chk.
         quantum_encrypt [104, 101, 108, 108, 111, 32, 119, 111, 114, 108, 100] (str ''correcthorse'')
           = Inr (blob, fp, chk)
         \<and> length blob = 15 \<and> struct_unpack_I (take 4 blob) = Inr 11)"
proof (intro conjI impI)
  assume e: "quantum_encrypt d p = Inr (blob, fp, chk)"
  then obtain pre where pre: "struct_pack_I (length d) = Inr pre"
    and blob: "blob = pre @ xor_bytes d (keybytes p (length d))"
    by (rule quantum_encrypt_Inr)
  have l: "length pre = 4" and u: "struct_unpack_I pre = Inr (length d)"
    using struct_pack_I_Inr [OF pre] by simp_all
  show "length blob = 4 + length d"
    by (simp add: blob l xor_bytes_length keybytes_length)
  show "struct_unpack_I (take 4 blob) = Inr (length d)"
    using l u by (simp add: blob)
next
  assume "length d < 2 ^ 32"
  then show "\<exists>blob fp chk. quantum_encrypt d p = Inr (blob, fp, chk)"
    by (rule quantum_encrypt_total)
next
  show "\<exists>blob fp chk.
         quantum_encrypt [104, 101, 108, 108, 111, 32, 119, 111, 114, 108, 100] (str ''correcthorse'')
           = Inr (blob, fp, chk)
         \<and> length blob = 15 \<and> struct_unpack_I (take 4 blob) = Inr 11"
    unfolding encrypt_hello by simp
qed

theorem C3_blob_layout_witness:
  "quantum_encrypt [104, 101, 108, 108, 111, 32, 119, 111, 114, 108, 100] (str ''correcthorse'')
     = Inr ([0, 0, 0, 11, 21, 43, 216, 245, 1, 89, 237, 169, 227, 235, 139],
            ''7d4eb4996e799ac69187ef204490468a162f68a6c47d51b9985b7d4dac7074f7'',
            ''fbb91d0ef9c0a2830c18050719f91d8a162f68a6c47d51b9985b7d4dac7074f7'')
   \<and> length [0, 0, 0, 11, 21, 43, 216, 245, 1, 89, 237, 169, 227, 235, 139 :: byte]
       = 4 + length [104, 101, 108, 108, 111, 32, 119, 111, 114, 108, 100 :: byte]
   \<and> struct_unpack_I (take 4 [0, 0, 0, 11, 21, 43, 216, 245, 1, 89, 237, 169, 227, 235, 139])
       = Inr (length [104, 101, 108, 108, 111, 32, 119, 111, 114, 108, 100 :: byte])
   \<and> length [104, 101, 108, 108, 111, 32, 119, 111, 114, 108, 100 :: byte] < 2 ^ 32"
proof -
  have "length [104, 101, 108, 108, 111, 32, 119, 111, 114, 108, 100 :: byte] < 2 ^ 32" by simp
  with encrypt_hello
    C3_blob_layout [of "[104, 101, 108, 108, 111, 32, 119, 111, 114, 108, 100]"
      "str ''correcthorse''" "[0, 0, 0, 11, 21, 43, 216, 245, 1, 89, 237, 169, 227, 235, 139]"
      "''7d4eb4996e799ac69187ef204490468a162f68a6c47d51b9985b7d4dac7074f7''"
      "''fbb91d0ef9c0a2830c18050719f91d8a162f68a6c47d51b9985b7d4dac7074f7''"]
  show ?thesis by blast
qed

text \<open>
  C4 (short blob) does not hold for every expected fingerprint and checksum: for the empty
  blob, whose checksum is the fingerprint itself, \<open>quantum_decrypt\<close> does not return the
  failure signal; \<open>struct.unpack\<close> raises.
\<close>

theorem C4_counterexample:
  "quantum_decrypt [] (str ''correcthorse'')
     ''7d4eb4996e799ac69187ef204490468a162f68a6c47d51b9985b7d4dac7074f7''
     ''7d4eb4996e799ac69187ef204490468a162f68a6c47d51b9985b7d4dac7074f7''
   = Inl StructError"
  unfolding quantum_decrypt_closed
  by (simp add: quantum_hash_empty fingerprint_correcthorse)

text \<open>
  C4 (short blob), as the code has it.  On a blob shorter than 4 bytes \<open>quantum_decrypt\<close>
  never returns recovered bytes and reads nothing out of bounds (\<open>encrypted[:4]\<close> is a
  slice); it returns the failure signal whenever the fingerprint or the checksum differs.
  It has no length check of its own: when both match, the prefix read raises
  \<open>struct.error\<close>.  The length requirement is the service's: \<open>decrypt_file\<close> rejects a
  stored payload shorter than 8 bytes with HTTP 400 before the engine is called.
\<close>

theorem C4_short_blob_amended:
  assumes "length blob < 4"
  shows "quantum_decrypt blob p fp chk =
      (if generate_entropy_fingerprint p = Inr fp \<and> quantum_hash blob p = Inr chk
       then Inl StructError else Inr None)
    \<and> (8 \<le> length p \<longrightarrow>
        decrypt_file (Some (fp, chk)) blob p = Inl (HTTPException 400 ''Encrypted data corrupted''))"
proof
  have "struct_unpack_I (take 4 blob) = Inl StructError"
    using assms by (intro struct_unpack_I_short) simp
  then show "quantum_decrypt blob p fp chk =
      (if generate_entropy_fingerprint p = Inr fp \<and> quantum_hash blob p = Inr chk
       then Inl StructError else Inr None)"
    unfolding quantum_decrypt_closed by simp
  show "8 \<le> length p \<longrightarrow>
        decrypt_file (Some (fp, chk)) blob p = Inl (HTTPException 400 ''Encrypted data corrupted'')"
    using assms by (auto simp: decrypt_file_def)
qed

theorem C4_short_blob_witness:
  "length [1, 2, 3 :: byte] < 4
   \<and> quantum_decrypt [1, 2, 3] (str ''correcthorse'') ''00'' ''00'' = Inr None
   \<and> 8 \<le> length (str ''correcthorse'')
   \<and> decrypt_file (Some (''00'', ''00'')) [1, 2, 3] (str ''correcthorse'')
       = Inl (HTTPException 400 ''Encrypted data corrupted'')"
proof -
  have l: "length [1, 2, 3 :: byte] < 4" by simp
  have p: "8 \<le> length (str ''correcthorse'')" by (simp add: str_def)
  show ?thesis
    using C4_short_blob_amended [OF l, of "str ''correcthorse''" "''00''" "''00''"] p
    by (simp add: fingerprint_correcthorse)
qed

text \<open>
  C5 (wrong password) does not hold for every pair of distinct passwords: \<open>passyfoxakmu\<close>
  and \<open>correcthorse\<close> have the same accumulator, hence the same seed, and the first opens
  what the second encrypted.
\<close>

theorem C5_counterexample:
  "str ''passyfoxakmu'' \<noteq> str ''correcthorse''
   \<and> quantum_encrypt [104, 101, 108, 108, 111, 32, 119, 111, 114, 108, 100] (str ''correcthorse'')
       = Inr ([0, 0, 0, 11, 21, 43, 216, 245, 1, 89, 237, 169, 227, 235, 139],
              ''7d4eb4996e799ac69187ef204490468a162f68a6c47d51b9985b7d4dac7074f7'',
              ''fbb91d0ef9c0a2830c18050719f91d8a162f68a6c47d51b9985b7d4dac7074f7'')
   \<and> quantum_decrypt [0, 0, 0, 11, 21, 43, 216, 245, 1, 89, 237, 169, 227, 235, 139]
         (str ''passyfoxakmu'')
         ''7d4eb4996e799ac69187ef204490468a162f68a6c47d51b9985b7d4dac7074f7''
         ''fbb91d0ef9c0a2830c18050719f91d8a162f68a6c47d51b9985b7d4dac7074f7''
       = Inr (Some [104, 101, 108, 108, 111, 32, 119, 111, 114, 108, 100])"
proof -
  have "str ''passyfoxakmu'' \<noteq> str ''correcthorse''" by (simp add: str_def)
  with encrypt_hello decrypt_of_encrypt [OF encrypt_hello seed_passyfoxakmu]
  show ?thesis by blast
qed

text \<open>
  C5 (wrong password), as the code has it.  Decrypting the output of
  \<open>quantum_encrypt d p1\<close> with another password \<open>p2\<close> fails whenever the fingerprint of
  \<open>p2\<close> differs from that of \<open>p1\<close>.  Distinct passwords can derive the same seed (the
  accumulator has 32 bits and the seed is clamped), and then decryption with \<open>p2\<close>
  succeeds and returns \<open>d\<close>.
\<close>

theorem C5_wrong_password_amended:
  assumes "quantum_encrypt d p1 = Inr (blob, fp, chk)"
  shows "(generate_entropy_fingerprint p2 \<noteq> generate_entropy_fingerprint p1
            \<longrightarrow> quantum_decrypt blob p2 fp chk = Inr None)
       \<and> (generate_entropy_seed p2 = generate_entropy_seed p1
            \<longrightarrow> quantum_decrypt blob p2 fp chk = Inr (Some d))"
proof (intro conjI impI)
  from assms obtain pre where fp: "generate_entropy_fingerprint p1 = Inr fp"
    by (rule quantum_encrypt_Inr)
  assume "generate_entropy_fingerprint p2 \<noteq> generate_entropy_fingerprint p1"
  then show "quantum_decrypt blob p2 fp chk = Inr None"
    unfolding quantum_decrypt_closed fp by simp
next
  assume "generate_entropy_seed p2 = generate_entropy_seed p1"
  with assms show "quantum_decrypt blob p2 fp chk = Inr (Some d)"
    by (rule decrypt_of_encrypt)
qed

theorem C5_wrong_password_witness:
  "quantum_encrypt [104, 101, 108, 108, 111, 32, 119, 111, 114, 108, 100] (str ''correcthorse'')
       = Inr ([0, 0, 0, 11, 21, 43, 216, 245, 1, 89, 237, 169, 227, 235, 139],
              ''7d4eb4996e799ac69187ef204490468a162f68a6c47d51b9985b7d4dac7074f7'',
              ''fbb91d0ef9c0a2830c18050719f91d8a162f68a6c47d51b9985b7d4dac7074f7'')
   \<and> generate_entropy_fingerprint (str ''wrongpassword'')
       \<noteq> generate_entropy_fingerprint (str ''correcthorse'')
   \<and> quantum_decrypt [0, 0, 0, 11, 21, 43, 216, 245, 1, 89, 237, 169, 227, 235, 139]
         (str ''wrongpassword'')
         ''7d4eb4996e799ac69187ef204490468a162f68a6c47d51b9985b7d4dac7074f7''
         ''fbb91d0ef9c0a2830c18050719f91d8a162f68a6c47d51b9985b7d4dac7074f7''
       = Inr None
   \<and> generate_entropy_seed (str ''passyfoxakmu'') = generate_entropy_seed (str ''correcthorse'')
   \<and> quantum_decrypt [0, 0, 0, 11, 21, 43, 216, 245, 1, 89, 237, 169, 227, 235, 139]
         (str ''passyfoxakmu'')
         ''7d4eb4996e799ac69187ef204490468a162f68a6c47d51b9985b7d4dac7074f7''
         ''fbb91d0ef9c0a2830c18050719f91d8a162f68a6c47d51b9985b7d4dac7074f7''
       = Inr (Some [104, 101, 108, 108, 111, 32, 119, 111, 114, 108, 100])"
proof -
  have n: "generate_entropy_fingerprint (str ''wrongpassword'')
       \<noteq> generate_entropy_fingerprint (str ''correcthorse'')"
    by (simp add: fingerprint_wrongpassword fingerprint_correcthorse)
  from n seed_passyfoxakmu encrypt_hello
    C5_wrong_password_amended [OF encrypt_hello, of "str ''wrongpassword''"]
    C5_wrong_password_amended [OF encrypt_hello, of "str ''passyfoxakmu''"]
  show ?thesis by blast
qed

text \<open>
  C6 (uniform failure) does not hold for every blob: on the one-byte blob \<open>00\<close> with its
  matching fingerprint and checksum, \<open>quantum_decrypt\<close> neither returns bytes nor returns
  the failure signal; \<open>struct.unpack\<close> raises.
\<close>

theorem C6_counterexample:
  "quantum_decrypt [0] (str ''correcthorse'')
     ''7d4eb4996e799ac69187ef204490468a162f68a6c47d51b9985b7d4dac7074f7''
     ''fb4eb4996e799ac69187ef204490468a162f68a6c47d51b9985b7d4dac7074f7''
   = Inl StructError"
  unfolding quantum_decrypt_closed
  by (simp add: hash_one_zero fingerprint_correcthorse)

text \<open>
  C6 (uniform failure), as the code has it.  For every blob of at least 4 bytes
  \<open>quantum_decrypt\<close> has exactly two kinds of outcome: all the bytes announced by the
  prefix, or the one failure value \<open>None\<close>, which a fingerprint mismatch, a checksum
  mismatch and a length mismatch all produce alike.
\<close>

theorem C6_uniform_failure_amended:
  assumes "4 \<le> length blob"
  shows "\<exists>n. struct_unpack_I (take 4 blob) = Inr n
     \<and> quantum_decrypt blob p fp chk =
         (if generate_entropy_fingerprint p = Inr fp \<and> quantum_hash blob p = Inr chk
             \<and> 4 + n \<le> length blob
          then Inr (Some (xor_bytes (take n (drop 4 blob)) (keybytes p n)))
          else Inr None)
     \<and> length (xor_bytes (take n (drop 4 blob)) (keybytes p n)) = min (length blob - 4) n"
proof -
  from assms obtain n where n: "struct_unpack_I (take 4 blob) = Inr n"
    using struct_unpack_I_take4 by blast
  show ?thesis
    unfolding quantum_decrypt_closed n
    by (auto simp: xor_bytes_length keybytes_length)
qed

theorem C6_uniform_failure_witness:
  "4 \<le> length [0, 0, 0, 11, 21, 43, 216, 245, 1, 89, 237, 169, 227, 235, 139 :: byte]
   \<and> quantum_decrypt [0, 0, 0, 11, 21, 43, 216, 245, 1, 89, 237, 169, 227, 235, 139]
         (str ''correcthorse'')
         ''7d4eb4996e799ac69187ef204490468a162f68a6c47d51b9985b7d4dac7074f7''
         ''fbb91d0ef9c0a2830c18050719f91d8a162f68a6c47d51b9985b7d4dac7074f7''
       = Inr (Some [104, 101, 108, 108, 111, 32, 119, 111, 114, 108, 100])
   \<and> quantum_decrypt [0, 0, 0, 11, 21, 43, 216, 245, 1, 89, 237, 169, 227, 235, 139]
         (str ''correcthorse'') ''00''
         ''fbb91d0ef9c0a2830c18050719f91d8a162f68a6c47d51b9985b7d4dac7074f7''
       = Inr None
   \<and> quantum_decrypt [0, 0, 0, 11, 21, 43, 216, 245, 1, 89, 237, 169, 227, 235, 139]
         (str ''correcthorse'')
         ''7d4eb4996e799ac69187ef204490468a162f68a6c47d51b9985b7d4dac7074f7'' ''00''
       = Inr None
   \<and> 4 \<le> length [0, 0, 0, 11, 21 :: byte]
   \<and> quantum_decrypt [0, 0, 0, 11, 21] (str ''correcthorse'')
         ''7d4eb4996e799ac69187ef204490468a162f68a6c47d51b9985b7d4dac7074f7''
         ''fbb91d0ef9799ac69187ef204490468a162f68a6c47d51b9985b7d4dac7074f7''
       = Inr None"
proof -
  have l: "4 \<le> length [0, 0, 0, 11, 21, 43, 216, 245, 1, 89, 237, 169, 227, 235, 139 :: byte]"
    and s: "4 \<le> length [0, 0, 0, 11, 21 :: byte]"
    by simp_all
  have u: "struct_unpack_I [0, 0, 0, 11] = Inr 11" by simp
  show ?thesis
    using C6_uniform_failure_amended [OF l, of "str ''correcthorse''"
        "''7d4eb4996e799ac69187ef204490468a162f68a6c47d51b9985b7d4dac7074f7''"
        "''fbb91d0ef9c0a2830c18050719f91d8a162f68a6c47d51b9985b7d4dac7074f7''"]
      C6_uniform_failure_amended [OF l, of "str ''correcthorse''" "''00''"
        "''fbb91d0ef9c0a2830c18050719f91d8a162f68a6c47d51b9985b7d4dac7074f7''"]
      C6_uniform_failure_amended [OF l, of "str ''correcthorse''"
        "''7d4eb4996e799ac69187ef204490468a162f68a6c47d51b9985b7d4dac7074f7''" "''00''"]
      C6_uniform_failure_amended [OF s, of "str ''correcthorse''"
        "''7d4eb4996e799ac69187ef204490468a162f68a6c47d51b9985b7d4dac7074f7''"
        "''fbb91d0ef9799ac69187ef204490468a162f68a6c47d51b9985b7d4dac7074f7''"]
    by (simp add: u fingerprint_correcthorse hash_hello_blob hash_truncated_blob
        keybytes_correcthorse_11 xor_bytes_def)
qed

text \<open>
  C7 (keystream).  For every seed in the unit interval (every \<open>Seed\<close> of the data model is
  one) and every requested length \<open>n\<close>, the generator's output is the specification's
  keystream: both recurrences, started from \<open>seed\<close> and \<open>tent(seed)\<close>, are applied 100 times
  without output, and the \<open>i\<close>-th byte is \<open>floor(((x' + y') / 2) * 256) & 0xFF\<close> of the
  trajectories after \<open>100 + i + 1\<close> steps.  No \<open>next\<close> raises, and every scaled value is a
  finite number between 0 and 256, so that \<open>int\<close> is the floor.
\<close>

theorem C7_keystream:
  assumes "unit_double seed"
  shows "entropy_stream seed n = map Inr (keystream_spec seed (nat n))
    \<and> length (entropy_stream seed n) = nat n
    \<and> (\<forall>i. \<exists>v. scaled ((logistic_map ^^ i) seed) ((tent_map ^^ i) (tent_map seed)) = Finite v
            \<and> 0 \<le> v \<and> v \<le> 256)"
proof (intro conjI allI)
  show e: "entropy_stream seed n = map Inr (keystream_spec seed (nat n))"
    using assms by (rule entropy_stream_closed)
  show "length (entropy_stream seed n) = nat n"
    by (simp add: e keystream_spec_length)
  fix i
  have "unit_double ((logistic_map ^^ i) seed)" "unit_double ((tent_map ^^ i) (tent_map seed))"
    using assms by (simp_all add: logistic_funpow_unit tent_funpow_unit tent_unit)
  then obtain v where "scaled ((logistic_map ^^ i) seed) ((tent_map ^^ i) (tent_map seed)) = Finite v"
    "0 \<le> v" "v \<le> 256"
    by (rule scaled_range)
  then show "\<exists>v. scaled ((logistic_map ^^ i) seed) ((tent_map ^^ i) (tent_map seed)) = Finite v
            \<and> 0 \<le> v \<and> v \<le> 256"
    by blast
qed

theorem C7_keystream_witness:
  "unit_double (Finite (2736223882426517 / 2 ^ 52))
   \<and> map Inr (keystream_spec (Finite (2736223882426517 / 2 ^ 52)) (nat 32))
      = (map Inr [125, 78, 180, 153, 110, 121, 154, 198, 145, 135, 239, 32, 68, 144, 70, 138,
          22, 47, 104, 166, 196, 125, 81, 185, 152, 91, 125, 77, 172, 112, 116, 247]
         :: (error + int) list)"
proof -
  have u: "unit_double (Finite (2736223882426517 / 2 ^ 52))" by (simp add: unit_double_def)
  have d: "dy 2736223882426517 (- 52) = Finite (2736223882426517 / 2 ^ 52)"
    by (simp add: dy_def power_int_minus)
  show ?thesis
    using u C7_keystream [OF u, of 32] stream_correcthorse unfolding d by simp
qed

text \<open>
  C8 (fingerprint).  For every password the fingerprint is the hexadecimal encoding, in
  stream order, of the first 32 bytes of the keystream of the password's seed (whatever
  length of keystream is requested).  Each byte \<open>k\<close>, a number from 0 to 255, contributes
  two characters: the digit of \<open>k div 16\<close> and then the digit of \<open>k mod 16\<close>, both taken from
  \<open>0123456789abcdef\<close>.  The result has 64 characters, all of them lowercase hexadecimal
  digits.  It is a function of the password alone; no file content is among the arguments
  of \<open>generate_entropy_fingerprint\<close>.
\<close>

theorem C8_fingerprint:
  "\<exists>ks fp. take 32 (entropy_stream (generate_entropy_seed p) (int (32 + n))) = map Inr ks
     \<and> length ks = 32
     \<and> list_all (\<lambda>k. 0 \<le> k \<and> k < 256) ks
     \<and> generate_entropy_fingerprint p = Inr fp
     \<and> fp = concat (map (\<lambda>k. [''0123456789abcdef'' ! nat (k div 16),
                                ''0123456789abcdef'' ! nat (k mod 16)]) ks)
     \<and> fp = concat (map format_02x ks)
     \<and> length fp = 64
     \<and> list_all (\<lambda>c. c \<in> set ''0123456789abcdef'') fp
     \<and> list_all is_lower_hex fp"
proof -
  let ?ks = "keystream_spec (generate_entropy_seed p) 32"
  let ?fp = "concat (map format_02x ?ks)"
  have r: "list_all (\<lambda>k. 0 \<le> k \<and> k < 256) ?ks"
    using keystream_spec_range [of _ "generate_entropy_seed p" 32] by (simp add: list_all_iff)
  have h: "?fp = bytes_hex (keybytes p 32)"
    using bytes_hex_of_ints [of ?ks] keystream_spec_range by (simp add: keybytes_def)
  have x: "map format_02x ?ks =
      map (\<lambda>k. [''0123456789abcdef'' ! nat (k div 16), ''0123456789abcdef'' ! nat (k mod 16)]) ?ks"
    using keystream_spec_range by (intro map_cong refl format_02x_digits) blast+
  have l: "list_all is_lower_hex ?fp" unfolding h by (rule bytes_hex_lower)
  have "take 32 (entropy_stream (generate_entropy_seed p) (int (32 + n))) = map Inr ?ks"
    by (simp only: stream_of_seed nat_int take_map keystream_spec_take le_add1)
  moreover have "length ?ks = 32" by (rule keystream_spec_length)
  moreover have "generate_entropy_fingerprint p = Inr ?fp" by (rule fingerprint_closed)
  moreover have "?fp = concat (map (\<lambda>k. [''0123456789abcdef'' ! nat (k div 16),
                                ''0123456789abcdef'' ! nat (k mod 16)]) ?ks)"
    by (simp only: x)
  moreover have "length ?fp = 64"
    unfolding h by (simp add: bytes_hex_length keybytes_length)
  moreover have "list_all (\<lambda>c. c \<in> set ''0123456789abcdef'') ?fp"
    using l unfolding is_lower_hex_def [abs_def] .
  ultimately show ?thesis using r l by blast
qed

theorem C8_fingerprint_witness:
  "take 32 (entropy_stream (generate_entropy_seed (str ''correcthorse'')) (int (32 + 0)))
     = map Inr [125, 78, 180, 153, 110, 121, 154, 198, 145, 135, 239, 32, 68, 144, 70, 138,
                22, 47, 104, 166, 196, 125, 81, 185, 152, 91, 125, 77, 172, 112, 116, 247]
   \<and> generate_entropy_fingerprint (str ''correcthorse'')
     = Inr ''7d4eb4996e799ac69187ef204490468a162f68a6c47d51b9985b7d4dac7074f7''"
proof -
  let ?bs = "[125, 78, 180, 153, 110, 121, 154, 198, 145, 135, 239, 32, 68, 144, 70, 138,
              22, 47, 104, 166, 196, 125, 81, 185, 152, 91, 125, 77, 172, 112, 116, 247] :: int list"
  have s: "take 32 (entropy_stream (generate_entropy_seed (str ''correcthorse'')) (int (32 + 0)))
      = map Inr ?bs"
    by (simp add: seed_correcthorse stream_correcthorse)
  from C8_fingerprint [of "str ''correcthorse''" 0] obtain ks fp
    where ks: "take 32 (entropy_stream (generate_entropy_seed (str ''correcthorse'')) (int (32 + 0)))
        = map Inr ks"
      and fp: "generate_entropy_fingerprint (str ''correcthorse'') = Inr fp"
      and enc: "fp = concat (map (\<lambda>k. [''0123456789abcdef'' ! nat (k div 16),
                                ''0123456789abcdef'' ! nat (k mod 16)]) ks)"
    by blast
  from ks have "map Inr ks = (map Inr ?bs :: (error + int) list)" unfolding s by (rule sym)
  then have "ks = ?bs" by (simp only: inj_map_eq_map inj_Inr)
  then have "fp = ''7d4eb4996e799ac69187ef204490468a162f68a6c47d51b9985b7d4dac7074f7''"
    unfolding enc by simp
  with fp s show ?thesis by simp
qed

text \<open>
  C9 (seed) does not hold with an open interval: the seed of the empty password is the
  float \<open>0.0001\<close> itself, the lower bound of the clamp.
\<close>

theorem C9_counterexample:
  "generate_entropy_seed [] = float_lit (1 / 10000)
   \<and> \<not> dless (float_lit (1 / 10000)) (generate_entropy_seed [])"
proof -
  have "int_truediv 0 4294967295 = Finite 0" by (simp add: int_truediv_def round_double_def)
  then have "generate_entropy_seed [] = float_lit (1 / 10000)"
    by (simp add: generate_entropy_seed_def Let_def lit_lo lit_hi py_min_def py_max_def)
  then show ?thesis by (simp add: lit_lo)
qed

text \<open>
  C9 (seed), as the code has it.  For every password, the empty one included,
  \<open>generate_entropy_seed\<close> returns without error a finite number in the closed interval
  from the float \<open>0.0001\<close> to the float \<open>0.9999\<close>, namely the clamp of
  \<open>acc / (2 ^ 32 - 1)\<close> for the unsigned 32-bit accumulator.
\<close>

theorem C9_seed_interval_amended:
  "(\<exists>s. generate_entropy_seed p = Finite s)
   \<and> \<not> dless (generate_entropy_seed p) (float_lit (1 / 10000))
   \<and> \<not> dless (float_lit (9999 / 10000)) (generate_entropy_seed p)
   \<and> generate_entropy_seed p = derive_seed_spec p"
proof -
  obtain s where "generate_entropy_seed p = Finite s"
    "7378697629483821 / 2 ^ 66 \<le> s" "s \<le> 4503149267407759 / 2 ^ 52"
    by (rule seed_range)
  then show ?thesis by (simp add: lit_lo lit_hi seed_spec [symmetric])
qed

text \<open>
  C10 (trailing bytes).  If the fingerprint and the checksum of a blob match and its
  prefix decodes to \<open>N\<close> with \<open>4 + N \<le> len(blob)\<close>, then \<open>quantum_decrypt\<close> returns
  exactly \<open>N\<close> bytes, the bytes at offsets \<open>4 .. 4 + N\<close> XOR-ed with the first \<open>N\<close> keystream
  bytes; whatever follows offset \<open>4 + N\<close> is ignored.
\<close>

theorem C10_trailing_bytes:
  assumes "generate_entropy_fingerprint p = Inr fp" and "quantum_hash blob p = Inr chk"
    and "struct_unpack_I (take 4 blob) = Inr n" and "4 + n \<le> length blob"
  shows "quantum_decrypt blob p fp chk = Inr (Some (xor_bytes (take n (drop 4 blob)) (keybytes p n)))
    \<and> length (xor_bytes (take n (drop 4 blob)) (keybytes p n)) = n
    \<and> entropy_stream (generate_entropy_seed p) (int n) = map (\<lambda>k. Inr (uint k)) (keybytes p n)"
proof (intro conjI)
  show "quantum_decrypt blob p fp chk = Inr (Some (xor_bytes (take n (drop 4 blob)) (keybytes p n)))"
    unfolding quantum_decrypt_closed using assms by simp
  show "length (xor_bytes (take n (drop 4 blob)) (keybytes p n)) = n"
    using assms(4) by (simp add: xor_bytes_length keybytes_length)
  show "entropy_stream (generate_entropy_seed p) (int n) = map (\<lambda>k. Inr (uint k)) (keybytes p n)"
    by (rule stream_keybytes)
qed

theorem C10_trailing_bytes_witness:
  "generate_entropy_fingerprint (str ''correcthorse'')
     = Inr ''7d4eb4996e799ac69187ef204490468a162f68a6c47d51b9985b7d4dac7074f7''
   \<and> quantum_hash [0, 0, 0, 1, 21, 9, 9] (str ''correcthorse'')
     = Inr ''fbb91d12f9ec0ec69187ef204490468a162f68a6c47d51b9985b7d4dac7074f7''
   \<and> struct_unpack_I (take 4 [0, 0, 0, 1, 21, 9, 9]) = Inr 1
   \<and> 4 + 1 \<le> length [0, 0, 0, 1, 21, 9, 9 :: byte]
   \<and> quantum_decrypt [0, 0, 0, 1, 21, 9, 9] (str ''correcthorse'')
       ''7d4eb4996e799ac69187ef204490468a162f68a6c47d51b9985b7d4dac7074f7''
       ''fbb91d12f9ec0ec69187ef204490468a162f68a6c47d51b9985b7d4dac7074f7''
     = Inr (Some [104])"
proof -
  have u: "struct_unpack_I (take 4 [0, 0, 0, 1, 21, 9, 9]) = Inr 1" by simp
  have l: "4 + 1 \<le> length [0, 0, 0, 1, 21, 9, 9 :: byte]" by simp
  have k: "keybytes (str ''correcthorse'') (Suc 0) = [125]"
  proof -
    have "keybytes (str ''correcthorse'') (Suc 0) = take (Suc 0) (keybytes (str ''correcthorse'') 32)"
      by (simp add: keybytes_take)
    then show ?thesis by (simp add: keybytes_correcthorse)
  qed
  show ?thesis
    using C10_trailing_bytes [OF fingerprint_correcthorse hash_long_blob u l]
      fingerprint_correcthorse hash_long_blob
    by (simp add: k xor_bytes_def)
qed

end
